theory Spec2Isabelle
  imports Complex_Main "HOL-Library.Word"
begin

section \<open>Similarity scorer (components/AnalysisResult.tsx)\<close>

subsection \<open>Strings\<close>

text \<open>
  A JavaScript string is a sequence of UTF-16 code units; \<open>length\<close>, indexing and
  \<open>===\<close> on single characters all work on code units.
\<close>

type_synonym code_unit = "16 word"
type_synonym jsstring = "code_unit list"

text \<open>An ASCII literal as a JavaScript string.\<close>

definition utf16 :: "string \<Rightarrow> jsstring" where
  "utf16 s = map (\<lambda>c. of_nat (of_char c)) s"

text \<open>
  \<open>String.prototype.trim\<close> removes leading and trailing code units that are
  ECMAScript WhiteSpace or LineTerminator.
\<close>

definition is_js_space :: "code_unit \<Rightarrow> bool" where
  "is_js_space c \<longleftrightarrow>
     c = 0x0009 \<or> c = 0x000A \<or> c = 0x000B \<or> c = 0x000C \<or> c = 0x000D \<or> c = 0x0020 \<or>
     c = 0x00A0 \<or> c = 0x1680 \<or> (0x2000 \<le> c \<and> c \<le> 0x200A) \<or> c = 0x2028 \<or> c = 0x2029 \<or>
     c = 0x202F \<or> c = 0x205F \<or> c = 0x3000 \<or> c = 0xFEFF"

definition trim :: "jsstring \<Rightarrow> jsstring" where
  "trim s = rev (dropWhile is_js_space (rev (dropWhile is_js_space s)))"

text \<open>
  \<open>String.prototype.toLowerCase\<close> applies the Unicode case mapping, a table of the
  platform. The scorer takes it as the parameter \<open>lower\<close>; \<open>ascii_toLowerCase\<close> is
  the mapping restricted to the ASCII letters, used for concrete inputs.
\<close>

definition ascii_toLowerCase :: "jsstring \<Rightarrow> jsstring" where
  "ascii_toLowerCase s = map (\<lambda>c. if 0x41 \<le> c \<and> c \<le> 0x5A then c + 0x20 else c) s"

subsection \<open>calculateLevenshteinDistance\<close>

text \<open>
  The matrix has \<open>b.length + 1\<close> rows of \<open>a.length + 1\<close> cells, every cell \<open>null\<close>
  at first. A \<open>null\<close> cell read in arithmetic counts as 0 (\<open>js_num\<close>). The loops read
  and write only cells inside the matrix and characters inside the strings (the
  indices run from 1 to the length), so no write extends an array and no read yields
  \<open>undefined\<close>.
\<close>

type_synonym matrix = "nat option list list"

definition js_num :: "nat option \<Rightarrow> nat" where
  "js_num c = (case c of None \<Rightarrow> 0 | Some n \<Rightarrow> n)"

definition get_cell :: "matrix \<Rightarrow> nat \<Rightarrow> nat \<Rightarrow> nat option" where
  "get_cell m j i = m ! j ! i"

definition set_cell :: "matrix \<Rightarrow> nat \<Rightarrow> nat \<Rightarrow> nat \<Rightarrow> matrix" where
  "set_cell m j i v = m[j := (m ! j)[i := Some v]]"

text \<open>\<open>for (let i = 0; i <= a.length; i++) matrix[0][i] = i\<close>\<close>

function seed_row :: "'a list \<Rightarrow> nat \<Rightarrow> matrix \<Rightarrow> matrix" where
  "seed_row a i m = (if i \<le> length a then seed_row a (i + 1) (set_cell m 0 i i) else m)"
  by pat_completeness auto
termination
  by (relation "measure (\<lambda>(a, i, m). Suc (length a) - i)") auto

text \<open>\<open>for (let j = 0; j <= b.length; j++) matrix[j][0] = j\<close>\<close>

function seed_col :: "'a list \<Rightarrow> nat \<Rightarrow> matrix \<Rightarrow> matrix" where
  "seed_col b j m = (if j \<le> length b then seed_col b (j + 1) (set_cell m j 0 j) else m)"
  by pat_completeness auto
termination
  by (relation "measure (\<lambda>(b, j, m). Suc (length b) - j)") auto

text \<open>The inner loop over \<open>i\<close> for a fixed row \<open>j\<close>.\<close>

function fill_row :: "'a list \<Rightarrow> 'a list \<Rightarrow> nat \<Rightarrow> nat \<Rightarrow> matrix \<Rightarrow> matrix" where
  "fill_row a b j i m =
     (if i \<le> length a then
        let substitutionCost = (if a ! (i - 1) = b ! (j - 1) then 0 else 1) in
        fill_row a b j (i + 1)
          (set_cell m j i
             (min (min (js_num (get_cell m j (i - 1)) + 1)
                       (js_num (get_cell m (j - 1) i) + 1))
                  (js_num (get_cell m (j - 1) (i - 1)) + substitutionCost)))
      else m)"
  by pat_completeness auto
termination
  by (relation "measure (\<lambda>(a, b, j, i, m). Suc (length a) - i)") auto

text \<open>The outer loop over \<open>j\<close>.\<close>

function fill_rows :: "'a list \<Rightarrow> 'a list \<Rightarrow> nat \<Rightarrow> matrix \<Rightarrow> matrix" where
  "fill_rows a b j m =
     (if j \<le> length b then fill_rows a b (j + 1) (fill_row a b j 1 m) else m)"
  by pat_completeness auto
termination
  by (relation "measure (\<lambda>(a, b, j, m). Suc (length b) - j)") auto

definition calculateLevenshteinDistance :: "'a list \<Rightarrow> 'a list \<Rightarrow> nat" where
  "calculateLevenshteinDistance a b =
     (if length a = 0 then length b
      else if length b = 0 then length a
      else
        let matrix = replicate (length b + 1) (replicate (length a + 1) None);
            matrix = seed_row a 0 matrix;
            matrix = seed_col b 0 matrix;
            matrix = fill_rows a b 1 matrix
        in js_num (get_cell matrix (length b) (length a)))"

subsection \<open>Numbers\<close>

text \<open>
  Every JavaScript number is an IEEE 754 binary64 value. A finite double is modelled by
  the rational it denotes. \<open>/\<close> and \<open>*\<close> return the exact result rounded to the nearest
  double, ties to the even significand (\<open>fl\<close>): the result has 53 significant bits, so
  with \<open>2 ^ e \<le> |x| < 2 ^ (e + 1)\<close> it is the multiple of \<open>2 ^ (e - 52)\<close> nearest to
  \<open>x\<close>. The exponent range is not bounded here: the values of the scorer lie between
  \<open>1 / maxLength\<close> and 100, far from overflow and from the subnormal range, and the
  divisor \<open>maxLength\<close> is never 0 where the division is reached. Lengths and the
  distance are integers below \<open>2 ^ 53\<close>, which are doubles as they are, and their
  difference is exact.
\<close>

type_synonym double = rat

text \<open>The number of binary digits of a positive integer.\<close>

function bitlength :: "int \<Rightarrow> nat" where
  "bitlength n = (if n \<le> 0 then 0 else Suc (bitlength (n div 2)))"
  by pat_completeness auto
termination
  by (relation "measure nat") auto

definition scale2 :: "rat \<Rightarrow> int \<Rightarrow> rat" where
  "scale2 x e = (if 0 \<le> e then x * 2 ^ nat e else x / 2 ^ nat (- e))"

text \<open>\<open>ilog2 x\<close> is the binary exponent of a positive \<open>x\<close>: \<open>2 ^ e \<le> x < 2 ^ (e + 1)\<close>.\<close>

definition ilog2 :: "rat \<Rightarrow> int" where
  "ilog2 x =
     (if 1 \<le> x then int (bitlength \<lfloor>x\<rfloor>) - 1
      else let b = int (bitlength \<lfloor>1 / x\<rfloor>) in
           if scale2 x (b - 1) = 1 then - (b - 1) else - b)"

definition round_ties_even :: "rat \<Rightarrow> int" where
  "round_ties_even y =
     (let q = \<lfloor>y\<rfloor>; f = y - of_int q in
      if f < 1 / 2 then q else if 1 / 2 < f then q + 1 else if even q then q else q + 1)"

definition fl :: "rat \<Rightarrow> double" where
  "fl x =
     (if x = 0 then 0
      else let e = ilog2 \<bar>x\<bar> - 52 in
           sgn x * scale2 (of_int (round_ties_even (scale2 \<bar>x\<bar> (- e)))) e)"

definition double_div :: "double \<Rightarrow> double \<Rightarrow> double" where
  "double_div x y = fl (x / y)"

definition double_mul :: "double \<Rightarrow> double \<Rightarrow> double" where
  "double_mul x y = fl (x * y)"

text \<open>
  \<open>Math.round\<close> returns the integer nearest to its argument, the larger one when the
  argument lies half-way between two integers.
\<close>

definition Math_round :: "double \<Rightarrow> int" where
  "Math_round x = \<lfloor>x + 1 / 2\<rfloor>"

subsection \<open>calculateTextSimilarity\<close>

definition calculateTextSimilarity :: "(jsstring \<Rightarrow> jsstring) \<Rightarrow> jsstring \<Rightarrow> jsstring \<Rightarrow> int" where
  "calculateTextSimilarity lower a b =
     (let cleanA = lower (trim a);
          cleanB = lower (trim b);
          maxLength = max (length cleanA) (length cleanB)
      in if maxLength = 0 then 100
         else
           let distance = calculateLevenshteinDistance cleanA cleanB;
               similarity = double_div (of_nat maxLength - of_nat distance) (of_nat maxLength)
           in max 0 (Math_round (double_mul similarity 100)))"

subsection \<open>The specification of the scorer\<close>

text \<open>
  One edit changes a string by inserting, deleting or replacing a single character at
  any position. The edit distance of two strings is the least number of edits that
  lead from one to the other: \<open>min_edits xs ys d\<close> says that \<open>d\<close> edits do, and that no
  smaller number does.
\<close>

inductive edit1 :: "'a list \<Rightarrow> 'a list \<Rightarrow> bool" where
  insertion: "edit1 (xs @ zs) (xs @ [c] @ zs)"
| deletion: "edit1 (xs @ [c] @ zs) (xs @ zs)"
| substitution: "edit1 (xs @ [c] @ zs) (xs @ [c'] @ zs)"

definition min_edits :: "'a list \<Rightarrow> 'a list \<Rightarrow> nat \<Rightarrow> bool" where
  "min_edits xs ys d \<longleftrightarrow> (edit1 ^^ d) xs ys \<and> (\<forall>n. (edit1 ^^ n) xs ys \<longrightarrow> d \<le> n)"

text \<open>The textbook recurrence for the edit distance, on the lists themselves.\<close>

fun lev :: "'a list \<Rightarrow> 'a list \<Rightarrow> nat" where
  "lev [] ys = length ys"
| "lev (x # xs) [] = Suc (length xs)"
| "lev (x # xs) (y # ys) =
     min (min (lev xs (y # ys) + 1) (lev (x # xs) ys + 1))
         (lev xs ys + (if x = y then 0 else 1))"

text \<open>
  The same recurrence on prefixes, as the matrix holds it: cell \<open>[j][i]\<close> is the
  distance of the first \<open>i\<close> characters of \<open>a\<close> and the first \<open>j\<close> characters of \<open>b\<close>.
\<close>

fun levp :: "'a list \<Rightarrow> 'a list \<Rightarrow> nat \<Rightarrow> nat \<Rightarrow> nat" where
  "levp a b 0 j = j"
| "levp a b (Suc i) 0 = Suc i"
| "levp a b (Suc i) (Suc j) =
     min (min (levp a b i (Suc j) + 1) (levp a b (Suc i) j + 1))
         (levp a b i j + (if a ! i = b ! j then 0 else 1))"

text \<open>A matrix of \<open>R\<close> rows with \<open>C\<close> cells each.\<close>

definition shaped :: "nat \<Rightarrow> nat \<Rightarrow> matrix \<Rightarrow> bool" where
  "shaped R C m \<longleftrightarrow> length m = R \<and> (\<forall>j < R. length (m ! j) = C)"

text \<open>The exact percentage, before any rounding.\<close>

definition exact_percent :: "(jsstring \<Rightarrow> jsstring) \<Rightarrow> jsstring \<Rightarrow> jsstring \<Rightarrow> rat" where
  "exact_percent lower reference candidate =
     (let r = lower (trim reference);
          c = lower (trim candidate);
          maxLen = max (length r) (length c)
      in 100 * (of_nat maxLen - of_nat (lev r c)) / of_nat maxLen)"

text \<open>
  The similarity as the specification words it: the exact quotient, rounded to the
  nearest integer (\<open>round\<close> takes the larger integer at a tie), not below 0.
\<close>

definition similarity_spec :: "(jsstring \<Rightarrow> jsstring) \<Rightarrow> jsstring \<Rightarrow> jsstring \<Rightarrow> int" where
  "similarity_spec lower reference candidate =
     (let r = lower (trim reference);
          c = lower (trim candidate);
          maxLen = max (length r) (length c)
      in if maxLen = 0 then 100
         else max 0 (round (100 * (of_nat maxLen - of_nat (lev r c)) / of_nat maxLen :: rat)))"

section \<open>Recording controller (hooks/useAudioRecorder.ts, the AudioRecorder component)\<close>

subsection \<open>Data\<close>

text \<open>
  A \<open>Blob\<close> is its bytes and its type label; \<open>new Blob(parts, {type})\<close> concatenates the
  parts in order.
\<close>

type_synonym byte = "8 word"

record blob =
  bytes :: "byte list"
  btype :: string

definition blob_size :: "blob \<Rightarrow> nat" where
  "blob_size b = length (bytes b)"

definition new_Blob :: "blob list \<Rightarrow> string \<Rightarrow> blob" where
  "new_Blob parts t = \<lparr>bytes = concat (map bytes parts), btype = t\<rparr>"

datatype RecordingStatus = Inactive | Recording | Paused | Stopped

text \<open>\<open>MediaRecorder.state\<close>.\<close>

datatype RecorderState = RInactive | RRecording | RPaused

text \<open>
  A thrown or rejected value: an \<open>Error\<close> object with its name and message, or any other
  value, of which the model keeps the text that \<open>${value.name}\<close> renders (\<open>undefined\<close> for
  a value without that property).
\<close>

datatype js_error = Error (err_name: string) (err_message: string) | NonError string

text \<open>The value \<open>{ blob, mimeType }\<close> that the promise \<open>stopped\<close> resolves to.\<close>

record payload =
  p_blob :: blob
  p_mimeType :: string

datatype promise = Pending | Resolved payload | Rejected js_error

text \<open>
  Each granted \<open>getUserMedia\<close> call creates one stream, one \<open>MediaRecorder\<close> on it and
  one promise \<open>stopped\<close>. The three live in one \<open>session\<close> object; the refs of the hook
  and the closures of the handlers hold its index in the store \<open>sessions\<close>. A track is
  \<open>True\<close> while it is live and \<open>False\<close> once \<open>track.stop()\<close> has ended it. \<open>onstop\<close> tells
  whether the recorder's \<open>onstop\<close> handler is attached; \<open>ondataavailable\<close>, \<open>onstart\<close> and
  \<open>onerror\<close> are attached when the recorder is created and never detached.
  \<open>stop_queued\<close> holds from \<open>MediaRecorder.stop()\<close> until the task it queues has run.
  When the constructor of \<open>MediaRecorder\<close> throws, the session holds the stream alone:
  its recorder fields are those of an inactive recorder without an \<open>onstop\<close> handler,
  and no ref ever points to it as a recorder.
\<close>

record session =
  tracks :: "bool list"
  rec_state :: RecorderState
  rec_mimeType :: string
  onstop :: bool
  stop_queued :: bool
  stopped :: promise

text \<open>
  The state of the hook (\<open>status\<close>, \<open>error\<close>, the three refs), the store of sessions, the
  number of \<open>startRecording\<close> calls suspended at \<open>await getUserMedia\<close>, and the state of
  the component (\<open>duration\<close>, and \<open>timerRef\<close>: whether the interval is running).
\<close>

record state =
  status :: RecordingStatus
  error :: "string option"
  mediaRecorderRef :: "nat option"
  audioChunksRef :: "blob list"
  streamRef :: "nat option"
  sessions :: "session list"
  awaiting :: nat
  duration :: nat
  timerRef :: bool

definition init :: state where
  "init = \<lparr>status = Inactive, error = None, mediaRecorderRef = None, audioChunksRef = [],
            streamRef = None, sessions = [], awaiting = 0, duration = 0, timerRef = False\<rparr>"

text \<open>
  How the \<open>try\<close> block goes once \<open>getUserMedia\<close> has settled. \<open>Granted n mt\<close>: a stream
  with \<open>n\<close> tracks is granted, the recorder on it reports the \<open>mimeType\<close> \<open>mt\<close> (possibly
  empty) and \<open>start()\<close> succeeds. \<open>Denied err\<close>: \<open>getUserMedia\<close> rejects with \<open>err\<close>.
  \<open>NoRecorder n err\<close>: the stream is granted and \<open>new MediaRecorder(stream)\<close> throws
  \<open>err\<close>. \<open>NoStart n mt err\<close>: the stream is granted, the recorder is created and
  \<open>start()\<close> throws \<open>err\<close>.
\<close>

datatype acquire =
    Granted nat string
  | Denied js_error
  | NoRecorder nat js_error
  | NoStart nat string js_error

text \<open>
  What \<open>startRecording\<close> returns: \<open>undefined\<close>, \<open>{ stopped }\<close> with the promise of a
  session, or \<open>{ stopped: Promise.reject(err) }\<close>.
\<close>

datatype start_result = Undefined | Handle nat | RejectedHandle js_error

definition upd_session :: "nat \<Rightarrow> (session \<Rightarrow> session) \<Rightarrow> state \<Rightarrow> state" where
  "upd_session i f s = s\<lparr>sessions := (sessions s)[i := f (sessions s ! i)]\<rparr>"

text \<open>\<open>String.prototype.includes\<close>.\<close>

fun js_includes :: "string \<Rightarrow> string \<Rightarrow> bool" where
  "js_includes [] sub = (sub = [])"
| "js_includes (c # cs) sub = (take (length sub) (c # cs) = sub \<or> js_includes cs sub)"

subsection \<open>startRecording\<close>

text \<open>\<open>mediaRecorderRef.current && mediaRecorderRef.current.state === 'recording'\<close>\<close>

definition recorder_is_recording :: "state \<Rightarrow> bool" where
  "recorder_is_recording s =
     (case mediaRecorderRef s of None \<Rightarrow> False
      | Some i \<Rightarrow> rec_state (sessions s ! i) = RRecording)"

text \<open>
  The function up to \<open>await navigator.mediaDevices.getUserMedia\<close>: the result tells
  whether the call went on to request the device (\<open>True\<close>) or returned at the guard.
\<close>

definition startRecording_begin :: "state \<Rightarrow> bool \<times> state" where
  "startRecording_begin s =
     (let s = s\<lparr>status := Inactive\<rparr>;
          s = s\<lparr>error := None\<rparr>
      in if recorder_is_recording s then (False, s)
         else (True, s\<lparr>awaiting := awaiting s + 1\<rparr>))"

definition permission_message :: string where
  "permission_message =
     ''Microphone permission denied. Please allow microphone access in your browser settings.''"

text \<open>The \<open>catch\<close> block, entered with the thrown or rejected value \<open>err\<close>.\<close>

definition start_catch :: "js_error \<Rightarrow> state \<Rightarrow> start_result \<times> state" where
  "start_catch err s =
     (let errorMessage =
            (case err of Error n m \<Rightarrow> m | NonError v \<Rightarrow> ''Could not access microphone.'');
          s = (if js_includes errorMessage ''Permission denied''
               then s\<lparr>error := Some permission_message\<rparr>
               else s\<lparr>error := Some errorMessage\<rparr>);
          s = s\<lparr>status := Inactive\<rparr>
      in (RejectedHandle err, s))"

text \<open>
  The function from the point where \<open>getUserMedia\<close> has settled: the \<open>try\<close> block as far
  as it gets, and the \<open>catch\<close> block when \<open>getUserMedia\<close>, the constructor of
  \<open>MediaRecorder\<close> or \<open>start()\<close> has thrown. All of it runs in one task, so the two
  \<open>setStatus\<close> calls of a failing run reach one render, with the later value.
\<close>

definition startRecording_resume :: "acquire \<Rightarrow> state \<Rightarrow> start_result \<times> state" where
  "startRecording_resume r s =
     (let s = s\<lparr>awaiting := awaiting s - 1\<rparr> in
      case r of
        Granted n mt \<Rightarrow>
          let i = length (sessions s);
              s = s\<lparr>sessions := sessions s @
                     [\<lparr>tracks = replicate n True, rec_state = RInactive, rec_mimeType = mt,
                       onstop = False, stop_queued = False, stopped = Pending\<rparr>]\<rparr>;
              s = s\<lparr>streamRef := Some i\<rparr>;
              s = s\<lparr>status := Recording\<rparr>;
              s = s\<lparr>mediaRecorderRef := Some i\<rparr>;
              s = upd_session i (\<lambda>r. r\<lparr>onstop := True\<rparr>) s;
              s = upd_session i (\<lambda>r. r\<lparr>rec_state := RRecording\<rparr>) s
          in (Handle i, s)
      | Denied err \<Rightarrow> start_catch err s
      | NoRecorder n err \<Rightarrow>
          let i = length (sessions s);
              s = s\<lparr>sessions := sessions s @
                     [\<lparr>tracks = replicate n True, rec_state = RInactive, rec_mimeType = [],
                       onstop = False, stop_queued = False, stopped = Pending\<rparr>]\<rparr>;
              s = s\<lparr>streamRef := Some i\<rparr>;
              s = s\<lparr>status := Recording\<rparr>
          in start_catch err s
      | NoStart n mt err \<Rightarrow>
          let i = length (sessions s);
              s = s\<lparr>sessions := sessions s @
                     [\<lparr>tracks = replicate n True, rec_state = RInactive, rec_mimeType = mt,
                       onstop = False, stop_queued = False, stopped = Pending\<rparr>]\<rparr>;
              s = s\<lparr>streamRef := Some i\<rparr>;
              s = s\<lparr>status := Recording\<rparr>;
              s = s\<lparr>mediaRecorderRef := Some i\<rparr>;
              s = upd_session i (\<lambda>r. r\<lparr>onstop := True\<rparr>) s
          in start_catch err s)"

text \<open>One call of \<open>startRecording\<close> with nothing else happening while it waits.\<close>

definition startRecording :: "acquire \<Rightarrow> state \<Rightarrow> start_result \<times> state" where
  "startRecording r s =
     (case startRecording_begin s of
        (False, s') \<Rightarrow> (Undefined, s')
      | (True, s') \<Rightarrow> startRecording_resume r s')"

subsection \<open>stopRecording and cancelRecording\<close>

text \<open>
  \<open>MediaRecorder.stop()\<close>, as the MediaStream Recording specification has it: nothing
  happens on an inactive recorder; otherwise the state becomes \<open>inactive\<close> and a task is
  queued that fires \<open>dataavailable\<close> with the data gathered and then \<open>stop\<close>.
\<close>

definition recorder_stop :: "nat \<Rightarrow> state \<Rightarrow> state" where
  "recorder_stop i s =
     (if rec_state (sessions s ! i) = RInactive then s
      else upd_session i (\<lambda>r. r\<lparr>rec_state := RInactive, stop_queued := True\<rparr>) s)"

text \<open>
  \<open>stopRecording\<close> is rebuilt whenever \<open>status\<close> changes and reads the \<open>status\<close> of the
  render that built it, here \<open>st\<close>.
\<close>

definition stopRecording_closure :: "RecordingStatus \<Rightarrow> state \<Rightarrow> state" where
  "stopRecording_closure st s =
     (case mediaRecorderRef s of
        Some i \<Rightarrow> if st = Recording then recorder_stop i s else s
      | None \<Rightarrow> s)"

definition stopRecording :: "state \<Rightarrow> state" where
  "stopRecording s = stopRecording_closure (status s) s"

text \<open>\<open>stream.getTracks().forEach(track => track.stop())\<close>\<close>

definition stop_tracks :: "nat \<Rightarrow> state \<Rightarrow> state" where
  "stop_tracks k s = upd_session k (\<lambda>r. r\<lparr>tracks := map (\<lambda>_. False) (tracks r)\<rparr>) s"

definition cancelRecording :: "state \<Rightarrow> state" where
  "cancelRecording s =
     (let s = (case mediaRecorderRef s of
                 None \<Rightarrow> s
               | Some i \<Rightarrow>
                   let s = upd_session i (\<lambda>r. r\<lparr>onstop := False\<rparr>) s
                   in if rec_state (sessions s ! i) = RRecording then recorder_stop i s else s);
          s = (case streamRef s of
                 None \<Rightarrow> s
               | Some k \<Rightarrow> (stop_tracks k s)\<lparr>streamRef := None\<rparr>);
          s = s\<lparr>audioChunksRef := []\<rparr>
      in s\<lparr>status := Inactive\<rparr>)"

subsection \<open>The handlers of the recorder\<close>

definition ondataavailable :: "blob \<Rightarrow> state \<Rightarrow> state" where
  "ondataavailable ev_data s =
     (if blob_size ev_data > 0 then s\<lparr>audioChunksRef := audioChunksRef s @ [ev_data]\<rparr> else s)"

definition onstart :: "state \<Rightarrow> state" where
  "onstart s = s\<lparr>status := Recording\<rparr>"

text \<open>Settling a promise has an effect only while it is pending.\<close>

definition resolve :: "payload \<Rightarrow> promise \<Rightarrow> promise" where
  "resolve v p = (case p of Pending \<Rightarrow> Resolved v | _ \<Rightarrow> p)"

definition reject :: "js_error \<Rightarrow> promise \<Rightarrow> promise" where
  "reject e p = (case p of Pending \<Rightarrow> Rejected e | _ \<Rightarrow> p)"

text \<open>
  The \<open>onstop\<close> handler of session \<open>i\<close>: its closure holds the stream and the \<open>resolve\<close>
  of that session, and it reads the recorder through \<open>mediaRecorderRef.current!\<close>, where
  a \<open>null\<close> ref would end the handler with a TypeError at its first statement.
\<close>

definition onstop_handler :: "nat \<Rightarrow> state \<Rightarrow> state" where
  "onstop_handler i s =
     (case mediaRecorderRef s of
        None \<Rightarrow> s
      | Some cur \<Rightarrow>
          let m = rec_mimeType (sessions s ! cur);
              mimeType = (if m = [] then ''audio/webm'' else m);
              audioBlob = new_Blob (audioChunksRef s) mimeType;
              s = s\<lparr>audioChunksRef := []\<rparr>;
              s = s\<lparr>status := Stopped\<rparr>;
              s = stop_tracks i s;
              s = s\<lparr>streamRef := None\<rparr>
          in upd_session i
               (\<lambda>r. r\<lparr>stopped := resolve \<lparr>p_blob = audioBlob, p_mimeType = mimeType\<rparr> (stopped r)\<rparr>) s)"

text \<open>
  The \<open>onerror\<close> handler of session \<open>i\<close>; \<open>ev_error\<close> is \<open>event.error\<close> when that is truthy.
\<close>

definition onerror :: "nat \<Rightarrow> js_error option \<Rightarrow> state \<Rightarrow> state" where
  "onerror i ev_error s =
     (let mediaRecorderError =
            (case ev_error of Some e \<Rightarrow> e | None \<Rightarrow> Error ''Error'' ''MediaRecorder error'');
          name = (case mediaRecorderError of Error n m \<Rightarrow> n | NonError v \<Rightarrow> v);
          s = s\<lparr>error := Some (''Recording error: '' @ name)\<rparr>
      in upd_session i (\<lambda>r. r\<lparr>stopped := reject mediaRecorderError (stopped r)\<rparr>) s)"

subsection \<open>The AudioRecorder component\<close>

definition MAX_DURATION_SECONDS :: nat where
  "MAX_DURATION_SECONDS = 300"

text \<open>
  The interval callback. It exists only while the interval runs, and the \<open>handleStop\<close>
  in its closure was built in the render in which \<open>status\<close> became \<open>recording\<close>.
\<close>

definition tick :: "state \<Rightarrow> state" where
  "tick s =
     (if timerRef s then
        let newDuration = duration s + 1 in
        if newDuration \<ge> MAX_DURATION_SECONDS
        then (stopRecording_closure Recording s)\<lparr>duration := MAX_DURATION_SECONDS\<rparr>
        else s\<lparr>duration := newDuration\<rparr>
      else s)"

text \<open>
  The effect with dependencies \<open>[status, handleStop]\<close>. \<open>handleStop\<close> changes exactly when
  \<open>status\<close> does, so the effect runs after a render in which \<open>status\<close> differs from the
  previous one, \<open>old\<close>: it starts the interval and resets \<open>duration\<close> when the new status
  is \<open>recording\<close>, and clears the interval otherwise.
\<close>

definition status_effect :: "RecordingStatus \<Rightarrow> state \<Rightarrow> state" where
  "status_effect old s =
     (if status s = old then s
      else if status s = Recording then s\<lparr>duration := 0, timerRef := True\<rparr>
      else s\<lparr>timerRef := False\<rparr>)"

subsection \<open>Events\<close>

text \<open>
  What can happen to the controller: the caller's calls, the settling of a pending
  \<open>getUserMedia\<close>, a tick of the interval, and the events of recorder \<open>i\<close>.
  \<open>StopTask i b\<close> is the task queued by \<open>stop()\<close>: \<open>dataavailable\<close> with the gathered
  data \<open>b\<close>, then \<open>stop\<close>. A settling with no call waiting for it, a stop task that no
  \<open>stop()\<close> has queued and an event of a session that does not exist leave the state
  unchanged; the other events of a recorder are accepted at any time.
\<close>

datatype event =
    CallStart
  | AcquireDone acquire
  | CallStop
  | CallCancel
  | Tick
  | DataAvailable nat blob
  | StopTask nat blob
  | RecorderStart nat
  | RecorderError nat "js_error option"

definition handle :: "event \<Rightarrow> state \<Rightarrow> state" where
  "handle ev s =
     (case ev of
        CallStart \<Rightarrow> snd (startRecording_begin s)
      | AcquireDone r \<Rightarrow> if awaiting s > 0 then snd (startRecording_resume r s) else s
      | CallStop \<Rightarrow> stopRecording s
      | CallCancel \<Rightarrow> cancelRecording s
      | Tick \<Rightarrow> tick s
      | DataAvailable i b \<Rightarrow> if i < length (sessions s) then ondataavailable b s else s
      | StopTask i b \<Rightarrow>
          if i < length (sessions s) \<and> stop_queued (sessions s ! i) then
            let s = upd_session i (\<lambda>r. r\<lparr>stop_queued := False\<rparr>) s;
                s = ondataavailable b s
            in if onstop (sessions s ! i) then onstop_handler i s else s
          else s
      | RecorderStart i \<Rightarrow> if i < length (sessions s) then onstart s else s
      | RecorderError i e \<Rightarrow> if i < length (sessions s) then onerror i e s else s)"

text \<open>One event, followed by the render and the effect it causes.\<close>

definition step :: "event \<Rightarrow> state \<Rightarrow> state" where
  "step ev s = status_effect (status s) (handle ev s)"

definition run :: "event list \<Rightarrow> state \<Rightarrow> state" where
  "run evs s = foldl (\<lambda>s ev. step ev s) s evs"

subsection \<open>Concrete runs\<close>

definition fragment :: blob where
  "fragment = \<lparr>bytes = [1, 2, 3], btype = ''audio/webm''\<rparr>"

definition granted :: acquire where
  "granted = Granted 1 ''audio/webm''"

text \<open>A session is started and is recording.\<close>

definition recording_trace :: "event list" where
  "recording_trace = [CallStart, AcquireDone granted]"

text \<open>A session is started, a fragment arrives, and \<open>stop()\<close> has been called.\<close>

definition stop_requested_trace :: "event list" where
  "stop_requested_trace = [CallStart, AcquireDone granted, DataAvailable 0 fragment, CallStop]"

text \<open>
  A session is started and cancelled while recording; the task queued by the
  \<open>stop()\<close> inside \<open>cancelRecording\<close> then delivers the recorded data; a second
  session is started.
\<close>

definition restart_after_cancel_trace :: "event list" where
  "restart_after_cancel_trace =
     [CallStart, AcquireDone granted, CallCancel, StopTask 0 fragment,
      CallStart, AcquireDone granted]"

text \<open>A session is started on a recorder that reports no \<open>mimeType\<close>.\<close>

definition unlabelled_trace :: "event list" where
  "unlabelled_trace = [CallStart, AcquireDone (Granted 2 [])]"

text \<open>
  A message with which a browser rejects \<open>getUserMedia\<close> when the permission is denied,
  other than \<open>Permission denied\<close>.
\<close>

definition not_allowed_message :: string where
  "not_allowed_message =
     ''The request is not allowed by the user agent or the platform in the current context.''"

subsection \<open>Invariants\<close>

text \<open>The session that a granted \<open>startRecording\<close> creates, once \<open>start()\<close> has run.\<close>

definition new_session :: "nat \<Rightarrow> string \<Rightarrow> session" where
  "new_session n mt =
     \<lparr>tracks = replicate n True, rec_state = RRecording, rec_mimeType = mt,
      onstop = True, stop_queued = False, stopped = Pending\<rparr>"

text \<open>The interval runs exactly while \<open>status\<close> is \<open>recording\<close>.\<close>

definition timer_ok :: "state \<Rightarrow> bool" where
  "timer_ok s \<longleftrightarrow> timerRef s = (status s = Recording)"

text \<open>Session \<open>i\<close> has no \<open>onstop\<close> handler and its promise has not been resolved.\<close>

definition detached :: "nat \<Rightarrow> state \<Rightarrow> bool" where
  "detached i s \<longleftrightarrow>
     i < length (sessions s) \<and> \<not> onstop (sessions s ! i) \<and>
     (\<forall>p. stopped (sessions s ! i) \<noteq> Resolved p)"

section \<open>Properties of the similarity scorer\<close>

declare bitlength.simps [simp del]

declare seed_row.simps [simp del] seed_col.simps [simp del] fill_row.simps [simp del] fill_rows.simps [simp del]

lemma levp_zero_right [simp]: "levp a b i 0 = i"
  by (cases i) simp_all

lemma shaped_set_cell: "shaped R C m \<Longrightarrow> shaped R C (set_cell m j i v)"
  by (cases "j < length m") (auto simp: shaped_def set_cell_def nth_list_update)

lemma get_set_cell:
  "shaped R C m \<Longrightarrow> j < R \<Longrightarrow> i < C \<Longrightarrow>
   get_cell (set_cell m j i v) j' i' = (if j' = j \<and> i' = i then Some v else get_cell m j' i')"
  by (auto simp: shaped_def set_cell_def get_cell_def nth_list_update)

lemma shaped_replicate: "shaped R C (replicate R (replicate C None))"
  by (simp add: shaped_def)

lemma seed_row_cells:
  "shaped R C m \<Longrightarrow> 0 < R \<Longrightarrow> length a < C \<Longrightarrow>
   shaped R C (seed_row a i m) \<and>
   (\<forall>j' i'. get_cell (seed_row a i m) j' i' =
      (if j' = 0 \<and> i \<le> i' \<and> i' \<le> length a then Some i' else get_cell m j' i'))"
proof (induction a i m rule: seed_row.induct)
  case (1 a i m)
  show ?case
  proof (cases "i \<le> length a")
    case True
    have sh: "shaped R C (set_cell m 0 i i)" using "1.prems" by (simp add: shaped_set_cell)
    from "1.IH"[OF True sh "1.prems"(2,3)] True "1.prems" show ?thesis
      by (subst (1 2) seed_row.simps) (auto simp: get_set_cell)
  next
    case False
    with "1.prems" show ?thesis by (subst (1 2) seed_row.simps) auto
  qed
qed

lemma seed_col_cells:
  "shaped R C m \<Longrightarrow> 0 < C \<Longrightarrow> length b < R \<Longrightarrow>
   shaped R C (seed_col b j m) \<and>
   (\<forall>j' i'. get_cell (seed_col b j m) j' i' =
      (if i' = 0 \<and> j \<le> j' \<and> j' \<le> length b then Some j' else get_cell m j' i'))"
proof (induction b j m rule: seed_col.induct)
  case (1 b j m)
  show ?case
  proof (cases "j \<le> length b")
    case True
    have sh: "shaped R C (set_cell m j 0 j)" using "1.prems" by (simp add: shaped_set_cell)
    from "1.IH"[OF True sh "1.prems"(2,3)] True "1.prems" show ?thesis
      by (subst (1 2) seed_col.simps) (auto simp: get_set_cell)
  next
    case False
    with "1.prems" show ?thesis by (subst (1 2) seed_col.simps) auto
  qed
qed

lemma fill_row_cells:
  "shaped (Suc (length b)) (Suc (length a)) m \<Longrightarrow> 1 \<le> j \<Longrightarrow> j \<le> length b \<Longrightarrow> 1 \<le> i \<Longrightarrow>
   (\<forall>i' \<le> length a. get_cell m (j - 1) i' = Some (levp a b i' (j - 1))) \<Longrightarrow>
   (\<forall>i' < i. get_cell m j i' = Some (levp a b i' j)) \<Longrightarrow>
   shaped (Suc (length b)) (Suc (length a)) (fill_row a b j i m) \<and>
   (\<forall>j' i'. get_cell (fill_row a b j i m) j' i' =
      (if j' = j \<and> i \<le> i' \<and> i' \<le> length a then Some (levp a b i' j) else get_cell m j' i'))"
proof (induction a b j i m rule: fill_row.induct)
  case (1 a b j i m)
  show ?case
  proof (cases "i \<le> length a")
    case False
    with "1.prems" show ?thesis by (subst (1 2) fill_row.simps) auto
  next
    case True
    obtain i0 where i: "i = Suc i0" using "1.prems"(4) by (cases i) auto
    obtain j0 where j: "j = Suc j0" using "1.prems"(2) by (cases j) auto
    define c :: nat where "c = (if a ! (i - 1) = b ! (j - 1) then 0 else 1)"
    define v where "v = min (min (js_num (get_cell m j (i - 1)) + 1)
                       (js_num (get_cell m (j - 1) i) + 1))
                  (js_num (get_cell m (j - 1) (i - 1)) + c)"
    define m' where "m' = set_cell m j i v"
    have g1: "get_cell m j (i - 1) = Some (levp a b i0 j)"
      using "1.prems"(6) i by simp
    have g2: "get_cell m (j - 1) i = Some (levp a b i j0)"
      using "1.prems"(5) True j by simp
    have g3: "get_cell m (j - 1) (i - 1) = Some (levp a b i0 j0)"
      using "1.prems"(5) True i j by simp
    have v: "v = levp a b i j"
      unfolding v_def g1 g2 g3 c_def by (simp add: i j js_num_def)
    have sh: "shaped (Suc (length b)) (Suc (length a)) m'"
      unfolding m'_def using "1.prems"(1) by (rule shaped_set_cell)
    have get': "get_cell m' j' i' = (if j' = j \<and> i' = i then Some v else get_cell m j' i')" for j' i'
      unfolding m'_def using "1.prems"(1,3) True by (intro get_set_cell) auto
    have p5: "\<forall>i' \<le> length a. get_cell m' (j - 1) i' = Some (levp a b i' (j - 1))"
      using "1.prems"(5) j by (simp add: get')
    have p6: "\<forall>i' < i + 1. get_cell m' j i' = Some (levp a b i' j)"
      using "1.prems"(6) v by (auto simp: get' less_Suc_eq)
    have IH: "shaped (Suc (length b)) (Suc (length a)) (fill_row a b j (i + 1) m') \<and>
      (\<forall>j' i'. get_cell (fill_row a b j (i + 1) m') j' i' =
        (if j' = j \<and> i + 1 \<le> i' \<and> i' \<le> length a then Some (levp a b i' j) else get_cell m' j' i'))"
      using "1.IH"[OF True c_def sh[unfolded m'_def v_def] "1.prems"(2,3) _ p5[unfolded m'_def v_def] p6[unfolded m'_def v_def]]
      unfolding m'_def v_def by simp
    have unf: "fill_row a b j i m = fill_row a b j (i + 1) m'"
      by (subst fill_row.simps) (simp add: True m'_def v_def c_def Let_def)
    show ?thesis
      unfolding unf using IH True v by (auto simp: get')
  qed
qed

lemma fill_rows_cells:
  "shaped (Suc (length b)) (Suc (length a)) m \<Longrightarrow> 1 \<le> j \<Longrightarrow>
   (\<forall>j' < j. \<forall>i' \<le> length a. get_cell m j' i' = Some (levp a b i' j')) \<Longrightarrow>
   (\<forall>j' \<le> length b. get_cell m j' 0 = Some j') \<Longrightarrow>
   (\<forall>j' \<le> length b. \<forall>i' \<le> length a.
       get_cell (fill_rows a b j m) j' i' = Some (levp a b i' j'))"
proof (induction a b j m rule: fill_rows.induct)
  case (1 a b j m)
  show ?case
  proof (cases "j \<le> length b")
    case False
    with "1.prems" show ?thesis by (subst fill_rows.simps) auto
  next
    case True
    define m' where "m' = fill_row a b j 1 m"
    have lev0: "levp a b 0 j = j" by simp
    have row: "shaped (Suc (length b)) (Suc (length a)) m' \<and>
      (\<forall>j' i'. get_cell m' j' i' =
        (if j' = j \<and> 1 \<le> i' \<and> i' \<le> length a then Some (levp a b i' j) else get_cell m j' i'))"
      unfolding m'_def
      using "1.prems" True by (intro fill_row_cells) auto
    have p3: "\<forall>j' < j + 1. \<forall>i' \<le> length a. get_cell m' j' i' = Some (levp a b i' j')"
    proof (intro allI impI)
      fix j' i' assume a: "j' < j + 1" "i' \<le> length a"
      show "get_cell m' j' i' = Some (levp a b i' j')"
      proof (cases "j' = j")
        case False
        with a "1.prems"(3) row show ?thesis by auto
      next
        case jj: True
        show ?thesis
        proof (cases "i' = 0")
          case True
          with jj row "1.prems"(4) \<open>j \<le> length b\<close> show ?thesis by simp
        next
          case False
          with jj row a show ?thesis by simp
        qed
      qed
    qed
    have p4: "\<forall>j' \<le> length b. get_cell m' j' 0 = Some j'"
      using row "1.prems"(4) by simp
    have unf: "fill_rows a b j m = fill_rows a b (j + 1) m'"
      by (subst fill_rows.simps) (simp add: True m'_def)
    show ?thesis
      unfolding unf
      using "1.IH"[OF True, folded m'_def] row p3 p4 by simp
  qed
qed

lemma calculateLevenshteinDistance_levp:
  "calculateLevenshteinDistance a b = levp a b (length a) (length b)"
proof (cases "length a = 0 \<or> length b = 0")
  case True
  then show ?thesis
    by (cases "length a") (auto simp: calculateLevenshteinDistance_def)
next
  case False
  define m0 :: matrix where "m0 = replicate (length b + 1) (replicate (length a + 1) None)"
  define m1 where "m1 = seed_row a 0 m0"
  define m2 where "m2 = seed_col b 0 m1"
  define m3 where "m3 = fill_rows a b 1 m2"
  have s0: "shaped (Suc (length b)) (Suc (length a)) m0"
    unfolding m0_def using shaped_replicate[of "Suc (length b)" "Suc (length a)"] by simp
  have s1: "shaped (Suc (length b)) (Suc (length a)) m1 \<and>
    (\<forall>j' i'. get_cell m1 j' i' = (if j' = 0 \<and> 0 \<le> i' \<and> i' \<le> length a then Some i' else get_cell m0 j' i'))"
    unfolding m1_def using s0 by (intro seed_row_cells) auto
  have s2: "shaped (Suc (length b)) (Suc (length a)) m2 \<and>
    (\<forall>j' i'. get_cell m2 j' i' = (if i' = 0 \<and> 0 \<le> j' \<and> j' \<le> length b then Some j' else get_cell m1 j' i'))"
    unfolding m2_def using s1 by (intro seed_col_cells) auto
  have row0: "\<forall>j' < 1. \<forall>i' \<le> length a. get_cell m2 j' i' = Some (levp a b i' j')"
    using s1 s2 by auto
  have col0: "\<forall>j' \<le> length b. get_cell m2 j' 0 = Some j'"
    using s2 by auto
  have "get_cell m3 (length b) (length a) = Some (levp a b (length a) (length b))"
    unfolding m3_def using fill_rows_cells[OF _ _ row0 col0] s2 by simp
  moreover have "calculateLevenshteinDistance a b = js_num (get_cell m3 (length b) (length a))"
    using False by (simp add: calculateLevenshteinDistance_def m0_def m1_def m2_def m3_def)
  ultimately show ?thesis by (simp add: js_num_def)
qed

lemma lev_Nil_right [simp]: "lev xs [] = length xs"
  by (cases xs) simp_all

lemma levp_lev:
  "i \<le> length a \<Longrightarrow> j \<le> length b \<Longrightarrow> levp a b i j = lev (rev (take i a)) (rev (take j b))"
  by (induction a b i j rule: levp.induct) (simp_all add: take_Suc_conv_app_nth)

lemma lev_same [simp]: "lev xs xs = 0"
  by (induction xs) simp_all

lemma lev_sym: "lev xs ys = lev ys xs"
  by (induction xs ys rule: lev.induct) (simp_all add: min.commute eq_commute)

lemma lev_le_max: "lev xs ys \<le> max (length xs) (length ys)"
  by (induction xs ys rule: lev.induct) (auto simp: min_le_iff_disj)

lemma edit1_Cons: "edit1 xs ys \<Longrightarrow> edit1 (c # xs) (c # ys)"
proof (induction rule: edit1.induct)
  case (insertion xs zs d)
  show ?case using edit1.insertion[of "c # xs" zs d] by simp
next
  case (deletion xs d zs)
  show ?case using edit1.deletion[of "c # xs" d zs] by simp
next
  case (substitution xs d zs d')
  show ?case using edit1.substitution[of "c # xs" d zs d'] by simp
qed

lemma edit1_rev: "edit1 xs ys \<Longrightarrow> edit1 (rev xs) (rev ys)"
proof (induction rule: edit1.induct)
  case (insertion xs zs d)
  show ?case using edit1.insertion[of "rev zs" "rev xs" d] by simp
next
  case (deletion xs d zs)
  show ?case using edit1.deletion[of "rev zs" d "rev xs"] by simp
next
  case (substitution xs d zs d')
  show ?case using edit1.substitution[of "rev zs" d "rev xs" d'] by simp
qed

lemma edit1_head_ins: "edit1 xs (c # xs)"
  using edit1.insertion[of "[]" xs c] by simp

lemma edit1_head_del: "edit1 (c # xs) xs"
  using edit1.deletion[of "[]" c xs] by simp

lemma edit1_head_sub: "edit1 (c # xs) (c' # xs)"
  using edit1.substitution[of "[]" c xs c'] by simp

lemma edits_Cons: "(edit1 ^^ n) xs ys \<Longrightarrow> (edit1 ^^ n) (c # xs) (c # ys)"
proof (induction n arbitrary: ys)
  case 0
  then show ?case by simp
next
  case (Suc n)
  then obtain zs where "(edit1 ^^ n) xs zs" "edit1 zs ys" by auto
  with Suc.IH[of zs] show ?case by (auto intro: edit1_Cons)
qed

lemma edits_rev: "(edit1 ^^ n) xs ys \<Longrightarrow> (edit1 ^^ n) (rev xs) (rev ys)"
proof (induction n arbitrary: ys)
  case 0
  then show ?case by simp
next
  case (Suc n)
  then obtain zs where "(edit1 ^^ n) xs zs" "edit1 zs ys" by auto
  with Suc.IH[of zs] show ?case by (auto intro: edit1_rev)
qed

lemma edits_step_first: "edit1 xs ys \<Longrightarrow> (edit1 ^^ n) ys zs \<Longrightarrow> (edit1 ^^ Suc n) xs zs"
  by (rule relpowp_Suc_I2)

lemma edits_build: "(edit1 ^^ length ys) [] ys"
proof (induction ys)
  case Nil
  show ?case by simp
next
  case (Cons y ys)
  have "edit1 [] [y]" using edit1_head_ins[of "[]" y] by simp
  moreover have "(edit1 ^^ length ys) [y] (y # ys)" using Cons by (rule edits_Cons)
  ultimately show ?case using edits_step_first by fastforce
qed

lemma edits_erase: "(edit1 ^^ length xs) xs []"
proof (induction xs)
  case Nil
  show ?case by simp
next
  case (Cons x xs)
  have "edit1 (x # xs) xs" by (rule edit1_head_del)
  with Cons show ?case using edits_step_first by fastforce
qed

lemma lev_edits: "(edit1 ^^ lev xs ys) xs ys"
proof (induction xs ys rule: lev.induct)
  case (1 ys)
  show ?case using edits_build by simp
next
  case (2 x xs)
  show ?case using edits_erase[of "x # xs"] by simp
next
  case (3 x xs y ys)
  let ?d1 = "lev xs (y # ys) + 1" and ?d2 = "lev (x # xs) ys + 1"
    and ?d3 = "lev xs ys + (if x = y then 0 else 1)"
  have e1: "(edit1 ^^ ?d1) (x # xs) (y # ys)"
    using edits_step_first[OF edit1_head_del "3.IH"(1)] by simp
  have e2: "(edit1 ^^ ?d2) (x # xs) (y # ys)"
    using edits_step_first[OF edit1_head_ins edits_Cons[OF "3.IH"(2)]] by simp
  have e3: "(edit1 ^^ ?d3) (x # xs) (y # ys)"
  proof (cases "x = y")
    case True
    then show ?thesis using edits_Cons[OF "3.IH"(3), of x] by simp
  next
    case False
    then show ?thesis
      using edits_step_first[OF edit1_head_sub edits_Cons[OF "3.IH"(3)], of x y] by simp
  qed
  have "lev (x # xs) (y # ys) = ?d1 \<or> lev (x # xs) (y # ys) = ?d2 \<or> lev (x # xs) (y # ys) = ?d3"
    by (simp add: min_def)
  with e1 e2 e3 show ?case by metis
qed

lemma lev_drop_head: "lev (x # xs) zs \<le> lev xs zs + 1"
  by (cases zs) (simp_all add: min_le_iff_disj)

lemma lev_ins_head: "lev xs (c # ys) \<le> lev xs ys + 1"
  by (cases xs) (simp_all add: min_le_iff_disj)

lemma lev_del_head: "lev xs ys \<le> lev xs (c # ys) + 1"
proof (induction xs)
  case Nil
  show ?case by simp
next
  case (Cons x xs)
  have "lev (x # xs) ys \<le> lev xs ys + 1" by (rule lev_drop_head)
  with Cons show ?case by (auto simp: min_def)
qed

lemma lev_sub_head: "lev xs (c' # ws) \<le> lev xs (c # ws) + 1"
proof (induction xs)
  case Nil
  show ?case by simp
next
  case (Cons x xs)
  have a: "lev (x # xs) (c' # ws) \<le> lev xs (c' # ws) + 1" by (rule lev_drop_head)
  have b: "lev (x # xs) (c' # ws) \<le> lev (x # xs) ws + 1" by (rule lev_ins_head)
  have c: "lev (x # xs) (c' # ws) \<le> lev xs ws + 1" by (simp add: min_le_iff_disj)
  have "lev (x # xs) (c # ws) = lev xs (c # ws) + 1 \<or> lev (x # xs) (c # ws) = lev (x # xs) ws + 1
      \<or> lev (x # xs) (c # ws) = lev xs ws + (if x = c then 0 else 1)"
    by (simp add: min_def)
  with a b c Cons show ?case by (auto split: if_splits)
qed

lemma lev_cong_head:
  assumes "\<And>u. lev u zs \<le> lev u ys + 1"
  shows "lev xs (c # zs) \<le> lev xs (c # ys) + 1"
proof (induction xs)
  case Nil
  show ?case using assms[of "[]"] by simp
next
  case (Cons x xs)
  have a: "lev (x # xs) (c # zs) \<le> lev xs (c # zs) + 1" by (rule lev_drop_head)
  have b: "lev (x # xs) (c # zs) \<le> lev (x # xs) zs + 1" by (rule lev_ins_head)
  have c: "lev (x # xs) (c # zs) \<le> lev xs zs + (if x = c then 0 else 1)"
    by (simp add: min_le_iff_disj)
  have "lev (x # xs) (c # ys) = lev xs (c # ys) + 1 \<or> lev (x # xs) (c # ys) = lev (x # xs) ys + 1
      \<or> lev (x # xs) (c # ys) = lev xs ys + (if x = c then 0 else 1)"
    by (simp add: min_def)
  with a b c Cons assms[of "x # xs"] assms[of xs] show ?case by (auto split: if_splits)
qed

lemma lev_prefix_step:
  assumes "\<And>u. lev u zs \<le> lev u ys + 1"
  shows "lev xs (p @ zs) \<le> lev xs (p @ ys) + 1"
proof (induction p arbitrary: xs)
  case Nil
  show ?case using assms by simp
next
  case (Cons c p)
  show ?case using lev_cong_head[of "p @ zs" "p @ ys" xs c] Cons by simp
qed

lemma lev_edit1: "edit1 ys zs \<Longrightarrow> lev xs zs \<le> lev xs ys + 1"
proof (induction rule: edit1.induct)
  case (insertion p zs c)
  have "lev xs (p @ (c # zs)) \<le> lev xs (p @ zs) + 1"
    by (rule lev_prefix_step) (rule lev_ins_head)
  then show ?case by simp
next
  case (deletion p c zs)
  have "lev xs (p @ zs) \<le> lev xs (p @ (c # zs)) + 1"
    by (rule lev_prefix_step) (rule lev_del_head)
  then show ?case by simp
next
  case (substitution p c zs c')
  have "lev xs (p @ (c' # zs)) \<le> lev xs (p @ (c # zs)) + 1"
    by (rule lev_prefix_step) (rule lev_sub_head)
  then show ?case by simp
qed

lemma edits_lev: "(edit1 ^^ n) xs ys \<Longrightarrow> lev xs ys \<le> n"
proof (induction n arbitrary: ys)
  case 0
  then show ?case by simp
next
  case (Suc n)
  then obtain zs where "(edit1 ^^ n) xs zs" "edit1 zs ys" by auto
  with Suc.IH[of zs] lev_edit1[of zs ys xs] show ?case by simp
qed

lemma min_edits_lev: "min_edits xs ys (lev xs ys)"
  by (simp add: min_edits_def lev_edits edits_lev)

lemma min_edits_unique: "min_edits xs ys d \<Longrightarrow> d = lev xs ys"
  unfolding min_edits_def using lev_edits[of xs ys] edits_lev[of d xs ys] by (simp add: dual_order.eq_iff)

lemma min_edits_rev: "min_edits (rev xs) (rev ys) d \<Longrightarrow> min_edits xs ys d"
  unfolding min_edits_def using edits_rev[of _ "rev xs" "rev ys"] edits_rev[of _ xs ys] by auto

lemma calculateLevenshteinDistance_lev:
  "calculateLevenshteinDistance a b = lev (rev a) (rev b)"
  by (simp add: calculateLevenshteinDistance_levp levp_lev)

lemma lev_rev: "lev (rev xs) (rev ys) = lev xs ys"
  using min_edits_unique[OF min_edits_rev[OF min_edits_lev[of "rev xs" "rev ys"]]] by simp

lemma calculateLevenshteinDistance_min_edits:
  "min_edits a b (calculateLevenshteinDistance a b)"
  by (simp add: calculateLevenshteinDistance_lev lev_rev min_edits_lev)

lemma bitlength_le_iff: "bitlength n \<le> k \<longleftrightarrow> n < 2 ^ k"
proof (induction n arbitrary: k rule: bitlength.induct)
  case (1 n)
  show ?case
  proof (cases "n \<le> 0")
    case True
    have "(0::int) < 2 ^ k" by simp
    with True have "n < 2 ^ k" by linarith
    with True show ?thesis by (subst bitlength.simps) simp
  next
    case False
    show ?thesis
    proof (cases k)
      case 0
      with False show ?thesis by (subst bitlength.simps) auto
    next
      case (Suc k')
      have "bitlength n \<le> k \<longleftrightarrow> bitlength (n div 2) \<le> k'"
        using False Suc by (subst bitlength.simps) simp
      also have "\<dots> \<longleftrightarrow> n div 2 < 2 ^ k'" using "1.IH"[OF False] .
      also have "\<dots> \<longleftrightarrow> n < 2 ^ k" unfolding Suc by auto
      finally show ?thesis .
    qed
  qed
qed

lemma bitlength_pos: "0 < n \<Longrightarrow> 0 < bitlength n"
  by (subst bitlength.simps) simp

lemma round_ties_even_le:
  assumes "y \<le> of_int N"
  shows "round_ties_even y \<le> N"
proof -
  have q: "\<lfloor>y\<rfloor> \<le> N" using assms by (simp add: floor_le_iff)
  show ?thesis
  proof (cases "\<lfloor>y\<rfloor> = N")
    case True
    then have "y = of_int N" using assms by (metis floor_le_iff of_int_floor_le order_antisym)
    then show ?thesis by (simp add: round_ties_even_def)
  next
    case False
    with q have "\<lfloor>y\<rfloor> + 1 \<le> N" by simp
    then show ?thesis by (auto simp: round_ties_even_def Let_def)
  qed
qed

lemma round_ties_even_nonneg: "0 \<le> y \<Longrightarrow> 0 \<le> round_ties_even y"
  by (auto simp: round_ties_even_def Let_def)

lemma ilog2_le_52:
  assumes "0 < x" "x \<le> of_nat B" "B < 2 ^ 53"
  shows "ilog2 x \<le> 52"
proof (cases "1 \<le> x")
  case True
  have "\<lfloor>x\<rfloor> \<le> int B" using assms(2) by (simp add: floor_le_iff)
  also have "\<dots> < 2 ^ 53" using assms(3) by (metis of_nat_less_iff of_nat_numeral of_nat_power)
  finally have "bitlength \<lfloor>x\<rfloor> \<le> 53" by (simp add: bitlength_le_iff)
  with True show ?thesis by (simp add: ilog2_def)
next
  case False
  then have "1 \<le> 1 / x" using assms(1) by simp
  then have "0 < \<lfloor>1 / x\<rfloor>" by simp
  then have "0 < bitlength \<lfloor>1 / x\<rfloor>" by (rule bitlength_pos)
  with False show ?thesis by (simp add: ilog2_def Let_def)
qed

lemma fl_nonneg: "0 \<le> x \<Longrightarrow> 0 \<le> fl x"
  by (auto simp: fl_def Let_def scale2_def sgn_if intro!: mult_nonneg_nonneg divide_nonneg_nonneg round_ties_even_nonneg)

lemma fl_le_nat:
  assumes "0 \<le> x" "x \<le> of_nat B" "B < 2 ^ 53"
  shows "fl x \<le> of_nat B"
proof (cases "x = 0")
  case True
  then show ?thesis by (simp add: fl_def)
next
  case False
  with assms(1) have pos: "0 < x" by simp
  define e where "e = ilog2 \<bar>x\<bar> - 52"
  have e: "e \<le> 0" using ilog2_le_52[OF pos assms(2,3)] pos by (simp add: e_def)
  define k where "k = nat (- e)"
  have sc: "scale2 \<bar>x\<bar> (- e) = x * 2 ^ k"
    using e pos by (simp add: scale2_def k_def)
  have "x * 2 ^ k \<le> of_int (int B * 2 ^ k)" using assms(2) by simp
  then have r: "round_ties_even (x * 2 ^ k) \<le> int B * 2 ^ k" by (rule round_ties_even_le)
  have sc2: "scale2 z e = z / 2 ^ k" for z
    using e by (cases "e = 0") (simp_all add: scale2_def k_def)
  have "fl x = sgn x * scale2 (of_int (round_ties_even (scale2 \<bar>x\<bar> (- e)))) e"
    unfolding fl_def e_def Let_def using False by (simp only: if_False)
  also have "\<dots> = of_int (round_ties_even (x * 2 ^ k)) / 2 ^ k"
    unfolding sc sc2 using pos by simp
  finally have "fl x = of_int (round_ties_even (x * 2 ^ k)) / 2 ^ k" .
  also have "\<dots> \<le> of_int (int B * 2 ^ k) / 2 ^ k"
    using r by (intro divide_right_mono) (simp_all only: of_int_le_iff zero_le_power zero_le_numeral)
  also have "\<dots> = of_nat B" by simp
  finally show ?thesis .
qed

lemma percent_bounds:
  assumes "d \<le> m" "0 < m"
  shows "0 \<le> Math_round (double_mul (double_div (of_nat m - of_nat d) (of_nat m)) 100)"
    and "Math_round (double_mul (double_div (of_nat m - of_nat d) (of_nat m)) 100) \<le> 100"
proof -
  define q :: rat where "q = (of_nat m - of_nat d) / of_nat m"
  have q0: "0 \<le> q" using assms by (simp add: q_def)
  have q1: "q \<le> of_nat 1" using assms by (simp add: q_def)
  define s where "s = fl q"
  have s0: "0 \<le> s" unfolding s_def using q0 by (rule fl_nonneg)
  have s1: "s \<le> of_nat 1" unfolding s_def using q0 q1 by (rule fl_le_nat) simp
  define p where "p = fl (s * 100)"
  have p0: "0 \<le> p" unfolding p_def using s0 by (intro fl_nonneg) simp
  have "s * 100 \<le> of_nat 100" using s1 by simp
  then have p1: "p \<le> of_nat 100" unfolding p_def using s0 by (intro fl_le_nat) simp_all
  have eq: "double_mul (double_div (of_nat m - of_nat d) (of_nat m)) 100 = p"
    by (simp add: double_mul_def double_div_def p_def s_def q_def)
  show "0 \<le> Math_round (double_mul (double_div (of_nat m - of_nat d) (of_nat m)) 100)"
    unfolding eq Math_round_def using p0 by simp
  have "p + 1 / 2 < 101" using p1 by simp
  then have "\<lfloor>p + 1 / 2\<rfloor> < 101" by (simp add: floor_less_iff)
  then show "Math_round (double_mul (double_div (of_nat m - of_nat d) (of_nat m)) 100) \<le> 100"
    unfolding eq Math_round_def by simp
qed

lemma floor_rat_numeral: "\<lfloor>(numeral a / numeral b :: rat)\<rfloor> = numeral a div numeral b"
  using floor_divide_of_int_eq[of "numeral a" "numeral b", where ?'a = rat] by simp

lemma floor_rat_one_numeral: "\<lfloor>(1 / numeral b :: rat)\<rfloor> = 1 div numeral b"
  using floor_divide_of_int_eq[of 1 "numeral b", where ?'a = rat] by simp

lemmas double_eval = fl_def ilog2_def scale2_def round_ties_even_def Let_def floor_rat_numeral
  floor_rat_one_numeral
  double_div_def double_mul_def Math_round_def bitlength.simps

lemma lev_ge_length_diff: "length xs - length ys \<le> lev xs ys"
  by (induction xs ys rule: lev.induct) auto

lemma lev_append_left: "lev (xs @ zs) zs \<le> length xs"
proof (induction xs)
  case Nil
  show ?case by simp
next
  case (Cons x xs)
  have "lev (x # xs @ zs) zs \<le> lev (xs @ zs) zs + 1" by (rule lev_drop_head)
  with Cons show ?case by simp
qed

lemma lev_replicate:
  assumes "k \<le> n"
  shows "lev (replicate n c) (replicate k c) = n - k"
proof -
  have "replicate n c = replicate (n - k) c @ replicate k c"
    using assms by (simp flip: replicate_add)
  then have "lev (replicate n c) (replicate k c) \<le> n - k"
    using lev_append_left[of "replicate (n - k) c" "replicate k c"] by simp
  moreover have "n - k \<le> lev (replicate n c) (replicate k c)"
    using lev_ge_length_diff[of "replicate n c" "replicate k c"] by simp
  ultimately show ?thesis by simp
qed

lemma calculateLevenshteinDistance_eq_lev:
  "calculateLevenshteinDistance a b = lev a b"
  by (simp add: calculateLevenshteinDistance_lev lev_rev)

lemma trim_replicate: "\<not> is_js_space c \<Longrightarrow> trim (replicate n c) = replicate n c"
  by (simp add: trim_def dropWhile_replicate)

lemma ascii_toLowerCase_replicate:
  "\<not> (0x41 \<le> c \<and> c \<le> 0x5A) \<Longrightarrow> ascii_toLowerCase (replicate n c) = replicate n c"
  by (auto simp: ascii_toLowerCase_def)

lemma letter_a_plain: "\<not> is_js_space (0x61 :: code_unit)" "\<not> (0x41 \<le> (0x61 :: code_unit) \<and> (0x61 :: code_unit) \<le> 0x5A)"
  by (simp_all add: is_js_space_def)

lemma kitten_distance:
  "calculateLevenshteinDistance (utf16 ''kitten'') (utf16 ''sitting'') = 3"
  by code_simp

lemma kitten_clean:
  "trim (utf16 ''kitten'') = utf16 ''kitten''" "trim (utf16 ''sitting'') = utf16 ''sitting''"
  "ascii_toLowerCase (utf16 ''kitten'') = utf16 ''kitten''"
  "ascii_toLowerCase (utf16 ''sitting'') = utf16 ''sitting''"
  by code_simp+

lemma kitten_length:
  "length (utf16 ''kitten'') = 6" "length (utf16 ''sitting'') = 7"
  by (simp_all add: utf16_def)

lemma kitten_nonempty: "utf16 ''kitten'' \<noteq> []" "utf16 ''sitting'' \<noteq> []"
  by (simp_all add: utf16_def)

lemma percent_4_7: "Math_round (double_mul (double_div 4 7) 100) = 57"
  by (simp add: double_eval)

lemma percent_23_40: "Math_round (double_mul (double_div 23 40) 100) = 57"
  by (simp add: double_eval)

lemma kitten_similarity:
  "lower (utf16 ''kitten'') = utf16 ''kitten'' \<Longrightarrow> lower (utf16 ''sitting'') = utf16 ''sitting'' \<Longrightarrow>
   calculateTextSimilarity lower (utf16 ''kitten'') (utf16 ''sitting'') = 57"
  by (simp add: calculateTextSimilarity_def Let_def kitten_clean kitten_distance kitten_length
      kitten_nonempty percent_4_7)

lemma replicate_a_clean:
  "trim (replicate n (0x61 :: code_unit)) = replicate n 0x61"
  "ascii_toLowerCase (replicate n (0x61 :: code_unit)) = replicate n 0x61"
  using letter_a_plain by (simp_all add: trim_replicate ascii_toLowerCase_replicate)

lemma spec_percent_23_40: "round (115 / 2 :: rat) = 58"
  by (simp add: round_def floor_rat_numeral)


subsection \<open>The error of the double arithmetic\<close>

lemma scale2_powi: "scale2 x e = x * 2 powi e"
proof (cases "0 \<le> e")
  case True
  then show ?thesis by (simp only: scale2_def power_int_def if_True)
next
  case False
  have "inverse (2::rat) ^ nat (- e) = inverse (2 ^ nat (- e))" by (rule power_inverse)
  with False show ?thesis by (simp only: scale2_def power_int_def if_False divide_inverse)
qed

lemma bitlength_bounds:
  assumes "0 < n"
  shows "2 ^ (bitlength n - 1) \<le> n" and "n < 2 ^ bitlength n"
proof -
  have b: "0 < bitlength n" using assms by (rule bitlength_pos)
  have "\<not> bitlength n \<le> bitlength n - 1" using b by simp
  then show "2 ^ (bitlength n - 1) \<le> n" by (simp add: bitlength_le_iff)
  have "bitlength n \<le> bitlength n" by simp
  then show "n < 2 ^ bitlength n" by (simp only: bitlength_le_iff)
qed

lemma between_powers:
  assumes "1 \<le> (y::rat)"
  defines "b \<equiv> bitlength \<lfloor>y\<rfloor>"
  shows "0 < b" and "2 ^ (b - 1) \<le> y" and "y < 2 ^ b"
proof -
  have n: "0 < \<lfloor>y\<rfloor>" using assms(1) by simp
  show "0 < b" unfolding b_def using n by (rule bitlength_pos)
  have "(2::int) ^ (b - 1) \<le> \<lfloor>y\<rfloor>" unfolding b_def using n by (rule bitlength_bounds)
  then have "of_int ((2::int) ^ (b - 1)) \<le> (of_int \<lfloor>y\<rfloor> :: rat)" by (simp only: of_int_le_iff)
  also have "\<dots> \<le> y" by simp
  finally show "2 ^ (b - 1) \<le> y" by simp
  have "\<lfloor>y\<rfloor> < 2 ^ b" unfolding b_def using n by (rule bitlength_bounds)
  then have "\<lfloor>y\<rfloor> + 1 \<le> 2 ^ b" by simp
  then have "(of_int (\<lfloor>y\<rfloor> + 1) :: rat) \<le> of_int (2 ^ b)" by (simp only: of_int_le_iff)
  moreover have "y < of_int (\<lfloor>y\<rfloor> + 1)" by linarith
  ultimately show "y < 2 ^ b" by simp
qed

lemma ilog2_bounds:
  assumes "0 < x"
  shows "2 powi (ilog2 x) \<le> x" and "x < 2 powi (ilog2 x + 1)"
proof -
  have "2 powi (ilog2 x) \<le> x \<and> x < 2 powi (ilog2 x + 1)"
  proof (cases "1 \<le> x")
    case True
    define b where "b = bitlength \<lfloor>x\<rfloor>"
    note bp = between_powers[OF True, folded b_def]
    have il: "ilog2 x = int (b - 1)" using True bp(1) by (simp add: ilog2_def b_def)
    have il1: "ilog2 x + 1 = int b" using il bp(1) by simp
    have "(2::rat) powi (ilog2 x) = 2 ^ (b - 1)" unfolding il by (simp only: power_int_of_nat)
    moreover have "(2::rat) powi (ilog2 x + 1) = 2 ^ b" unfolding il1 by (simp only: power_int_of_nat)
    ultimately show ?thesis using bp by simp
  next
    case False
    define y where "y = 1 / x"
    have y1: "1 \<le> y" using False assms by (simp add: y_def)
    define b where "b = bitlength \<lfloor>y\<rfloor>"
    note bp = between_powers[OF y1, folded b_def]
    have xy: "x = 1 / y" using assms by (simp add: y_def)
    have lo: "1 / 2 ^ b < x" unfolding xy using bp(3) y1 by (simp add: field_simps)
    have hi: "x \<le> 1 / 2 ^ (b - 1)" unfolding xy using bp(2) y1 by (simp add: field_simps)
    have sc: "scale2 x (int b - 1) = x * 2 ^ (b - 1)"
      using bp(1) by (simp add: scale2_def nat_diff_distrib')
    have p1: "(2::rat) powi (- int (b - 1)) = 1 / 2 ^ (b - 1)"
      by (simp add: power_int_minus divide_inverse)
    have p2: "(2::rat) powi (- int b) = 1 / 2 ^ b"
      by (simp add: power_int_minus divide_inverse)
    have p3: "(2::rat) powi (- int b + 1) = 1 / 2 ^ (b - 1)"
    proof -
      have e: "- int b + 1 = - int (b - 1)" using bp(1) by simp
      show ?thesis unfolding e by (rule p1)
    qed
    have p4: "(2::rat) powi (- int (b - 1) + 1) = 2 / 2 ^ (b - 1)"
      using power_int_add_1[of "2::rat" "- int (b - 1)"] p1 by simp
    show ?thesis
    proof (cases "x * 2 ^ (b - 1) = 1")
      case True
      then have xe: "x = 1 / 2 ^ (b - 1)" by (simp add: field_simps)
      have il: "ilog2 x = - int (b - 1)"
        using False True bp(1) sc by (simp add: ilog2_def Let_def y_def[symmetric] b_def[symmetric] of_nat_diff)
      have "(1::rat) / 2 ^ (b - 1) < 2 / 2 ^ (b - 1)"
        by (intro divide_strict_right_mono) simp_all
      then show ?thesis unfolding il p1 p4 using xe by simp
    next
      case ne: False
      have il: "ilog2 x = - int b"
        using False ne sc by (simp add: ilog2_def Let_def y_def[symmetric] b_def[symmetric])
      have "x \<noteq> 1 / 2 ^ (b - 1)" using ne by (auto simp: field_simps)
      with hi have "x < 1 / 2 ^ (b - 1)" by simp
      then show ?thesis unfolding il p2 p3 using lo by simp
    qed
  qed
  then show "2 powi (ilog2 x) \<le> x" and "x < 2 powi (ilog2 x + 1)" by simp_all
qed

lemma round_ties_even_error: "\<bar>of_int (round_ties_even y) - y\<bar> \<le> 1 / 2"
proof -
  define f where "f = y - of_int \<lfloor>y\<rfloor>"
  have f: "0 \<le> f" "f < 1" unfolding f_def by linarith+
  have q: "of_int \<lfloor>y\<rfloor> = y - f" by (simp add: f_def)
  consider "f < 1 / 2" | "1 / 2 < f" | "f = 1 / 2" by linarith
  then show ?thesis
  proof cases
    case 1
    then have "round_ties_even y = \<lfloor>y\<rfloor>" by (simp add: round_ties_even_def Let_def f_def)
    then show ?thesis using f 1 by (simp add: q)
  next
    case 2
    then have "round_ties_even y = \<lfloor>y\<rfloor> + 1"
      by (simp add: round_ties_even_def Let_def f_def)
    then show ?thesis using f 2 by (simp add: q)
  next
    case 3
    then have "round_ties_even y = \<lfloor>y\<rfloor> \<or> round_ties_even y = \<lfloor>y\<rfloor> + 1"
      by (simp add: round_ties_even_def Let_def f_def)
    then show ?thesis using 3 by (auto simp: q)
  qed
qed

lemma fl_error:
  assumes "0 < x"
  shows "\<bar>fl x - x\<bar> \<le> x / 2 ^ 53"
proof -
  define e where "e = ilog2 \<bar>x\<bar> - 52"
  define y where "y = x * 2 powi (- e)"
  have pe: "(0::rat) < 2 powi e" by simp
  have x0: "x \<noteq> 0" "\<bar>x\<bar> = x" "sgn x = 1" using assms by simp_all
  have "fl x = sgn x * scale2 (of_int (round_ties_even (scale2 \<bar>x\<bar> (- e)))) e"
    unfolding fl_def e_def Let_def using x0(1) by (simp only: if_False)
  then have flx: "fl x = of_int (round_ties_even y) * 2 powi e"
    unfolding x0 scale2_powi y_def by simp
  have xy: "x = y * 2 powi e"
    by (simp add: y_def power_int_minus field_simps)
  have "\<bar>fl x - x\<bar> = \<bar>of_int (round_ties_even y) - y\<bar> * 2 powi e"
    unfolding flx by (subst xy) (simp add: abs_mult left_diff_distrib[symmetric])
  also have "\<dots> \<le> 1 / 2 * 2 powi e"
    using round_ties_even_error[of y] pe by (intro mult_right_mono) simp_all
  also have "2 powi e = 2 powi (ilog2 x) / (2::rat) ^ 52"
    unfolding e_def x0 by (simp add: power_int_diff)
  also have "1 / 2 * (2 powi (ilog2 x) / (2::rat) ^ 52) \<le> 1 / 2 * (x / 2 ^ 52)"
    using ilog2_bounds(1)[OF assms] by (intro mult_left_mono divide_right_mono) simp_all
  also have "\<dots> = x / 2 ^ 53" by simp
  finally show ?thesis .
qed

lemma percent_error:
  assumes "k \<le> m" "0 < m"
  shows "\<bar>fl (fl (of_nat k / of_nat m) * 100) - 100 * of_nat k / of_nat m\<bar> \<le> 200 / 2 ^ 53"
proof (cases "k = 0")
  case True
  then show ?thesis by (simp add: fl_def)
next
  case False
  define q :: rat where "q = of_nat k / of_nat m"
  have q0: "0 < q" using False assms by (simp add: q_def)
  have q1: "q \<le> 1" using assms by (simp add: q_def)
  define s where "s = fl q"
  have e1: "\<bar>s - q\<bar> \<le> q / 2 ^ 53" unfolding s_def using q0 by (rule fl_error)
  have "q / 2 ^ 53 \<le> 1 / 2 ^ 53" using q1 by (intro divide_right_mono) simp_all
  with e1 have e1': "\<bar>s - q\<bar> \<le> 1 / 2 ^ 53" by linarith
  have "q / 2 ^ 53 < q" using q0 by (simp add: field_simps)
  with e1 have s0: "0 < s" by linarith
  have s1: "s \<le> 1" using fl_le_nat[of q 1] q0 q1 by (simp add: s_def)
  define p where "p = fl (s * 100)"
  have "\<bar>p - s * 100\<bar> \<le> s * 100 / 2 ^ 53" unfolding p_def using s0 by (intro fl_error) simp
  moreover have "s * 100 / 2 ^ 53 \<le> 1 * 100 / 2 ^ 53"
    using s1 by (intro divide_right_mono mult_right_mono) simp_all
  ultimately have e2: "\<bar>p - s * 100\<bar> \<le> 100 / 2 ^ 53" by linarith
  have "p - 100 * q = (p - s * 100) + 100 * (s - q)" by simp
  then have "\<bar>p - 100 * q\<bar> \<le> \<bar>p - s * 100\<bar> + \<bar>100 * (s - q)\<bar>"
    by (simp only: abs_triangle_ineq)
  also have "\<bar>100 * (s - q)\<bar> = 100 * \<bar>s - q\<bar>" by (simp only: abs_mult abs_numeral)
  finally have "\<bar>p - 100 * q\<bar> \<le> \<bar>p - s * 100\<bar> + 100 * \<bar>s - q\<bar>" .
  also have "\<dots> \<le> 100 / 2 ^ 53 + 100 * (1 / 2 ^ 53)"
    using e1' e2 by (intro add_mono mult_left_mono) simp_all
  finally have "\<bar>p - 100 * q\<bar> \<le> 200 / 2 ^ 53" by simp
  then show ?thesis by (simp add: p_def s_def q_def)
qed

lemma half_grid_gap:
  fixes t J :: int and m :: nat
  assumes "0 < m"
  shows "of_int t / of_nat (2 * m) < (of_int J :: rat) \<Longrightarrow>
           of_int t / of_nat (2 * m) + 1 / of_nat (2 * m) \<le> (of_int J :: rat)"
    and "(of_int J :: rat) < of_int t / of_nat (2 * m) \<Longrightarrow>
           (of_int J :: rat) + 1 / of_nat (2 * m) \<le> of_int t / of_nat (2 * m)"
proof -
  define c :: rat where "c = of_nat (2 * m)"
  have pos: "0 < c" using assms by (simp add: c_def)
  have c: "c = of_int (int (2 * m))" by (simp add: c_def)
  have Jc: "of_int J * c / c = of_int J" using pos by simp
  {
    assume "of_int t / c < (of_int J :: rat)"
    then have "(of_int t :: rat) < of_int J * c" using pos by (simp add: pos_divide_less_eq)
    then have "(of_int t :: rat) < of_int (J * int (2 * m))" unfolding c by simp
    then have "t < J * int (2 * m)" by (simp only: of_int_less_iff)
    then have "t + 1 \<le> J * int (2 * m)" by simp
    then have "(of_int (t + 1) :: rat) \<le> of_int (J * int (2 * m))" by (simp only: of_int_le_iff)
    then have "(of_int t + 1 :: rat) \<le> of_int J * c" unfolding c by simp
    then have "(of_int t + 1) / c \<le> of_int J * c / c" using pos by (intro divide_right_mono) simp_all
    then have "of_int t / c + 1 / c \<le> (of_int J :: rat)"
      unfolding Jc by (simp add: add_divide_distrib)
  }
  then show "of_int t / of_nat (2 * m) < (of_int J :: rat) \<Longrightarrow>
           of_int t / of_nat (2 * m) + 1 / of_nat (2 * m) \<le> (of_int J :: rat)"
    unfolding c_def .
  {
    assume "(of_int J :: rat) < of_int t / c"
    then have "(of_int J * c :: rat) < of_int t" using pos by (simp add: pos_less_divide_eq)
    then have "(of_int (J * int (2 * m)) :: rat) < of_int t" unfolding c by simp
    then have "J * int (2 * m) < t" by (simp only: of_int_less_iff)
    then have "J * int (2 * m) + 1 \<le> t" by simp
    then have "(of_int (J * int (2 * m) + 1) :: rat) \<le> of_int t" by (simp only: of_int_le_iff)
    then have "(of_int J * c + 1 :: rat) \<le> of_int t" unfolding c by simp
    then have "(of_int J * c + 1) / c \<le> of_int t / c" using pos by (intro divide_right_mono) simp_all
    then have "(of_int J :: rat) + 1 / c \<le> of_int t / c"
      unfolding add_divide_distrib Jc .
  }
  then show "(of_int J :: rat) < of_int t / of_nat (2 * m) \<Longrightarrow>
           (of_int J :: rat) + 1 / of_nat (2 * m) \<le> of_int t / of_nat (2 * m)"
    unfolding c_def .
qed

lemma round_percent:
  assumes "k \<le> m" "0 < m" "m < 2 ^ 44"
  defines "v \<equiv> (100 * of_nat k / of_nat m :: rat)"
  defines "r \<equiv> Math_round (double_mul (double_div (of_nat k) (of_nat m)) 100)"
  shows "round v - 1 \<le> r" and "r \<le> round v" and "v + 1 / 2 \<notin> \<int> \<Longrightarrow> r = round v"
proof -
  define p where "p = fl (fl (of_nat k / of_nat m) * 100)"
  define \<delta> :: rat where "\<delta> = 200 / 2 ^ 53"
  define g :: rat where "g = 1 / of_nat (2 * m)"
  define w where "w = v + 1 / 2"
  define j where "j = \<lfloor>w\<rfloor>"
  have r: "r = \<lfloor>p + 1 / 2\<rfloor>"
    by (simp add: r_def p_def Math_round_def double_mul_def double_div_def)
  have j: "round v = j" by (simp add: round_def j_def w_def)
  have err: "\<bar>p - v\<bar> \<le> \<delta>" unfolding p_def v_def \<delta>_def using assms(1,2) by (rule percent_error)
  have "(of_nat (2 * m) :: rat) < of_nat (2 ^ 45)"
    using assms(3) by (simp only: of_nat_less_iff) simp
  then have "(of_nat (2 * m) :: rat) < 2 ^ 45" by simp
  moreover have "(0::rat) < of_nat (2 * m)" using assms(2) by simp
  ultimately have "1 / (2::rat) ^ 45 < g" unfolding g_def by (simp add: field_simps)
  moreover have "\<delta> < 1 / 2 ^ 45" by (simp add: \<delta>_def)
  ultimately have dg: "\<delta> < g" by linarith
  have d1: "\<delta> < 1" by (simp add: \<delta>_def)
  have wt: "w = of_int (200 * int k + int m) / of_nat (2 * m)"
    using assms(2) by (simp add: w_def v_def field_simps)
  have jw: "of_int j \<le> w" "w < of_int j + 1" unfolding j_def by linarith+
  have pv: "v - \<delta> \<le> p" "p \<le> v + \<delta>" using err by linarith+
  have "w < of_int (j + 1)" using jw by simp
  then have "w + g \<le> of_int (j + 1)"
    unfolding wt g_def by (rule half_grid_gap(1)[OF assms(2)])
  then have up: "p + 1 / 2 < of_int j + 1" using pv dg unfolding w_def by simp
  have lo: "of_int j - 1 < p + 1 / 2" using pv d1 jw unfolding w_def by linarith
  show "r \<le> round v" unfolding r j using up by (simp add: floor_le_iff)
  show "round v - 1 \<le> r" unfolding r j using lo by (simp add: le_floor_iff)
  show "r = round v" if "v + 1 / 2 \<notin> \<int>"
  proof -
    have "w \<noteq> of_int j" using that unfolding w_def by (metis Ints_of_int)
    with jw have "of_int j < w" by simp
    then have "of_int j + g \<le> w"
      unfolding wt g_def by (rule half_grid_gap(2)[OF assms(2)])
    then have "of_int j \<le> p + 1 / 2" using pv dg unfolding w_def by linarith
    with up show ?thesis unfolding r j by (simp add: floor_unique)
  qed
qed

lemma similarity_near_spec:
  assumes "max (length (lower (trim a))) (length (lower (trim b))) < 2 ^ 44"
  shows "similarity_spec lower a b - 1 \<le> calculateTextSimilarity lower a b"
    and "calculateTextSimilarity lower a b \<le> similarity_spec lower a b"
    and "exact_percent lower a b + 1 / 2 \<notin> \<int> \<Longrightarrow>
           calculateTextSimilarity lower a b = similarity_spec lower a b"
proof -
  define m where "m = max (length (lower (trim a))) (length (lower (trim b)))"
  define d where "d = lev (lower (trim a)) (lower (trim b))"
  define k where "k = m - d"
  define v :: rat where "v = 100 * of_nat k / of_nat m"
  define r where "r = Math_round (double_mul (double_div (of_nat k) (of_nat m)) 100)"
  have dm: "d \<le> m" unfolding d_def m_def by (rule lev_le_max)
  have km: "k \<le> m" by (simp add: k_def)
  have diff: "(of_nat m - of_nat d :: rat) = of_nat k" using dm by (simp add: k_def of_nat_diff)
  have "exact_percent lower a b = 100 * (of_nat m - of_nat d) / of_nat m"
    by (simp only: exact_percent_def Let_def m_def d_def)
  then have ex: "exact_percent lower a b = v" unfolding diff v_def .
  have v0: "0 \<le> v" by (simp add: v_def)
  then have rv0: "0 \<le> round v" by (simp add: round_def)
  have "similarity_spec lower a b =
      (if m = 0 then 100 else max 0 (round (100 * (of_nat m - of_nat d) / of_nat m :: rat)))"
    by (simp only: similarity_spec_def Let_def m_def d_def)
  then have "similarity_spec lower a b = (if m = 0 then 100 else max 0 (round v))"
    unfolding diff v_def .
  then have spec: "similarity_spec lower a b = (if m = 0 then 100 else round v)"
    using rv0 by simp
  have "calculateTextSimilarity lower a b =
      (if m = 0 then 100
       else max 0 (Math_round (double_mul (double_div (of_nat m - of_nat d) (of_nat m)) 100)))"
    by (simp only: calculateTextSimilarity_def Let_def m_def d_def calculateLevenshteinDistance_eq_lev)
  then have sim0: "calculateTextSimilarity lower a b = (if m = 0 then 100 else max 0 r)"
    unfolding diff r_def .
  have r0: "m \<noteq> 0 \<Longrightarrow> 0 \<le> r"
    unfolding r_def diff[symmetric] using percent_bounds(1)[OF dm] by simp
  have sim: "calculateTextSimilarity lower a b = (if m = 0 then 100 else r)"
    using sim0 r0 by simp
  have m44: "m < 2 ^ 44" using assms by (simp add: m_def)
  show "similarity_spec lower a b - 1 \<le> calculateTextSimilarity lower a b"
    unfolding spec sim using round_percent(1)[OF km _ m44] by (simp add: v_def r_def)
  show "calculateTextSimilarity lower a b \<le> similarity_spec lower a b"
    unfolding spec sim using round_percent(2)[OF km _ m44] by (simp add: v_def r_def)
  show "calculateTextSimilarity lower a b = similarity_spec lower a b"
    if "exact_percent lower a b + 1 / 2 \<notin> \<int>"
    unfolding spec sim using round_percent(3)[OF km _ m44] that
    by (simp add: ex v_def r_def)
qed


subsection \<open>The claims on the scorer\<close>

text \<open>
  Claim C1, as the code has it. The scorer trims and lower-cases both strings. When the
  longer normalised string is empty the result is 100. Otherwise, with \<open>d\<close> the least
  number of single-character insertions, deletions and substitutions that turn one
  normalised string into the other, the result is \<open>Math.round\<close> of the double product
  \<open>((maxLen - d) / maxLen) * 100\<close>, where the quotient and the product are each rounded
  to the nearest double, and it is not below 0. For strings shorter than \<open>2 ^ 44\<close> this
  is the rounding of the exact value \<open>100 * (maxLen - d) / maxLen\<close> whenever that value
  is not half-way between two integers, and that rounding or one less when it is. For
  "kitten" and "sitting", on which lower-casing changes nothing, the result is 57.
\<close>

theorem similarity_formula:
  "(let cleanA = lower (trim a);
        cleanB = lower (trim b);
        maxLen = max (length cleanA) (length cleanB)
    in \<exists>d. min_edits cleanA cleanB d \<and>
         calculateTextSimilarity lower a b =
           (if maxLen = 0 then 100
            else max 0 (Math_round (double_mul
                   (double_div (of_nat maxLen - of_nat d) (of_nat maxLen)) 100)))) \<and>
   (max (length (lower (trim a))) (length (lower (trim b))) < 2 ^ 44 \<longrightarrow>
      similarity_spec lower a b - 1 \<le> calculateTextSimilarity lower a b \<and>
      calculateTextSimilarity lower a b \<le> similarity_spec lower a b \<and>
      (exact_percent lower a b + 1 / 2 \<notin> \<int> \<longrightarrow>
         calculateTextSimilarity lower a b = similarity_spec lower a b)) \<and>
   (lower (utf16 ''kitten'') = utf16 ''kitten'' \<and> lower (utf16 ''sitting'') = utf16 ''sitting'' \<longrightarrow>
      calculateTextSimilarity lower (utf16 ''kitten'') (utf16 ''sitting'') = 57)"
proof -
  have formula: "let cleanA = lower (trim a);
        cleanB = lower (trim b);
        maxLen = max (length cleanA) (length cleanB)
    in \<exists>d. min_edits cleanA cleanB d \<and>
         calculateTextSimilarity lower a b =
           (if maxLen = 0 then 100
            else max 0 (Math_round (double_mul
                   (double_div (of_nat maxLen - of_nat d) (of_nat maxLen)) 100)))"
    unfolding Let_def
    by (rule exI[of _ "calculateLevenshteinDistance (lower (trim a)) (lower (trim b))"])
       (simp add: calculateLevenshteinDistance_min_edits calculateTextSimilarity_def Let_def)
  have near: "max (length (lower (trim a))) (length (lower (trim b))) < 2 ^ 44 \<longrightarrow>
      similarity_spec lower a b - 1 \<le> calculateTextSimilarity lower a b \<and>
      calculateTextSimilarity lower a b \<le> similarity_spec lower a b \<and>
      (exact_percent lower a b + 1 / 2 \<notin> \<int> \<longrightarrow>
         calculateTextSimilarity lower a b = similarity_spec lower a b)"
    using similarity_near_spec[of lower a b] by blast
  have kitten: "lower (utf16 ''kitten'') = utf16 ''kitten'' \<and> lower (utf16 ''sitting'') = utf16 ''sitting'' \<longrightarrow>
      calculateTextSimilarity lower (utf16 ''kitten'') (utf16 ''sitting'') = 57"
    using kitten_similarity[of lower] by blast
  from formula near kitten show ?thesis by blast
qed

text \<open>The formula at "kitten" and "sitting": three edits, 57 percent.\<close>

theorem similarity_formula_witness:
  "min_edits (utf16 ''kitten'') (utf16 ''sitting'') 3 \<and>
   calculateTextSimilarity ascii_toLowerCase (utf16 ''kitten'') (utf16 ''sitting'') = 57"
proof -
  have "calculateTextSimilarity ascii_toLowerCase (utf16 ''kitten'') (utf16 ''sitting'') = 57"
    using similarity_formula[of ascii_toLowerCase "utf16 ''kitten''" "utf16 ''sitting''"]
    by (simp only: kitten_clean simp_thms)
  moreover have "min_edits (utf16 ''kitten'') (utf16 ''sitting'') 3"
    using calculateLevenshteinDistance_min_edits[of "utf16 ''kitten''" "utf16 ''sitting''"]
    by (simp only: kitten_distance)
  ultimately show ?thesis by simp
qed

text \<open>
  Claim C1 as the specification words it gives \<open>round(100 * (maxLen - d) / maxLen)\<close> of
  the exact quotient. For forty letters "a" against twenty-three the distance is 17 and
  the exact value is 57.5, which rounds to 58. The code divides first: the double
  nearest to 23/40 lies below it, the product with 100 is the double just below 57.5,
  and \<open>Math.round\<close> returns 57.
\<close>

theorem similarity_rounding_counterexample:
  "calculateTextSimilarity ascii_toLowerCase (replicate 40 0x61) (replicate 23 0x61) = 57 \<and>
   similarity_spec ascii_toLowerCase (replicate 40 0x61) (replicate 23 0x61) = 58"
proof
  have d: "calculateLevenshteinDistance (replicate 40 (0x61::code_unit)) (replicate 23 0x61) = 17"
    by (simp add: calculateLevenshteinDistance_eq_lev lev_replicate)
  show "calculateTextSimilarity ascii_toLowerCase (replicate 40 0x61) (replicate 23 0x61) = 57"
    by (simp add: calculateTextSimilarity_def Let_def replicate_a_clean d percent_23_40)
  show "similarity_spec ascii_toLowerCase (replicate 40 0x61) (replicate 23 0x61) = 58"
    by (simp add: similarity_spec_def Let_def replicate_a_clean lev_replicate spec_percent_23_40)
qed

text \<open>
  Claim C9: the scorer is symmetric, \<open>similarity(a, b) = similarity(b, a)\<close> for every
  pair of strings (and every lower-casing function).
\<close>

theorem similarity_symmetric:
  "calculateTextSimilarity lower a b = calculateTextSimilarity lower b a"
  by (simp add: calculateTextSimilarity_def Let_def calculateLevenshteinDistance_eq_lev
      lev_sym[of "lower (trim a)"] max.commute)

text \<open>Symmetry at "kitten" and "sitting".\<close>

theorem similarity_symmetric_witness:
  "calculateTextSimilarity ascii_toLowerCase (utf16 ''kitten'') (utf16 ''sitting'') =
   calculateTextSimilarity ascii_toLowerCase (utf16 ''sitting'') (utf16 ''kitten'')"
  by (rule similarity_symmetric)

text \<open>
  Claim C10: the distance computed by \<open>calculateLevenshteinDistance\<close> is at most the
  length of the longer string. So the value handed to \<open>Math.max(0, ...)\<close> is never
  negative, the scorer returns that value unclamped, and the result is an integer
  between 0 and 100.
\<close>

theorem distance_bound_similarity_range:
  "calculateLevenshteinDistance a b \<le> max (length a) (length b) \<and>
   calculateTextSimilarity lower a b =
     (let cleanA = lower (trim a);
          cleanB = lower (trim b);
          maxLength = max (length cleanA) (length cleanB)
      in if maxLength = 0 then 100
         else Math_round (double_mul
                (double_div (of_nat maxLength - of_nat (calculateLevenshteinDistance cleanA cleanB))
                            (of_nat maxLength)) 100)) \<and>
   0 \<le> calculateTextSimilarity lower a b \<and> calculateTextSimilarity lower a b \<le> 100"
proof -
  define cleanA where "cleanA = lower (trim a)"
  define cleanB where "cleanB = lower (trim b)"
  define m where "m = max (length cleanA) (length cleanB)"
  define d where "d = calculateLevenshteinDistance cleanA cleanB"
  define v where "v = Math_round (double_mul (double_div (of_nat m - of_nat d) (of_nat m)) 100)"
  have bound: "calculateLevenshteinDistance x y \<le> max (length x) (length y)" for x y :: "'b list"
    by (simp add: calculateLevenshteinDistance_eq_lev lev_le_max)
  have dm: "d \<le> m" unfolding d_def m_def by (rule bound)
  have sim: "calculateTextSimilarity lower a b = (if m = 0 then 100 else max 0 v)"
    by (simp add: calculateTextSimilarity_def Let_def cleanA_def cleanB_def m_def d_def v_def)
  have range: "m \<noteq> 0 \<Longrightarrow> 0 \<le> v \<and> v \<le> 100"
    unfolding v_def using percent_bounds[OF dm, of ] by simp
  have unclamped: "calculateTextSimilarity lower a b = (if m = 0 then 100 else v)"
    using sim range by auto
  have "0 \<le> calculateTextSimilarity lower a b \<and> calculateTextSimilarity lower a b \<le> 100"
    using unclamped range by auto
  moreover have "calculateTextSimilarity lower a b =
     (let cleanA = lower (trim a);
          cleanB = lower (trim b);
          maxLength = max (length cleanA) (length cleanB)
      in if maxLength = 0 then 100
         else Math_round (double_mul
                (double_div (of_nat maxLength - of_nat (calculateLevenshteinDistance cleanA cleanB))
                            (of_nat maxLength)) 100))"
    using unclamped by (simp add: Let_def cleanA_def cleanB_def m_def d_def v_def)
  ultimately show ?thesis using bound[of a b] by blast
qed

text \<open>The bounds at "kitten" and "sitting".\<close>

theorem distance_bound_similarity_range_witness:
  "calculateLevenshteinDistance (utf16 ''kitten'') (utf16 ''sitting'') \<le> 7 \<and>
   0 \<le> calculateTextSimilarity ascii_toLowerCase (utf16 ''kitten'') (utf16 ''sitting'') \<and>
   calculateTextSimilarity ascii_toLowerCase (utf16 ''kitten'') (utf16 ''sitting'') \<le> 100"
  using distance_bound_similarity_range[of "utf16 ''kitten''" "utf16 ''sitting''" ascii_toLowerCase]
  by (simp add: kitten_length)


section \<open>Properties of the recording controller\<close>

lemmas recorder_eval =
  run_def step_def handle_def status_effect_def startRecording_begin_def
  startRecording_resume_def start_catch_def startRecording_def recorder_is_recording_def
  recorder_stop_def stopRecording_closure_def stopRecording_def stop_tracks_def cancelRecording_def
  ondataavailable_def onstart_def resolve_def reject_def onstop_handler_def onerror_def
  tick_def upd_session_def init_def blob_size_def new_Blob_def Let_def
  MAX_DURATION_SECONDS_def granted_def fragment_def

lemma recording_state:
  "run recording_trace init =
     \<lparr>status = Recording, error = None, mediaRecorderRef = Some 0, audioChunksRef = [],
      streamRef = Some 0,
      sessions = [\<lparr>tracks = [True], rec_state = RRecording, rec_mimeType = ''audio/webm'',
                   onstop = True, stop_queued = False, stopped = Pending\<rparr>],
      awaiting = 0, duration = 0, timerRef = True\<rparr>"
  by (simp add: recording_trace_def recorder_eval)

lemma restart_state:
  "run restart_after_cancel_trace init =
     \<lparr>status = Recording, error = None, mediaRecorderRef = Some 1, audioChunksRef = [fragment],
      streamRef = Some 1,
      sessions = [\<lparr>tracks = [False], rec_state = RInactive, rec_mimeType = ''audio/webm'',
                   onstop = False, stop_queued = False, stopped = Pending\<rparr>,
                  \<lparr>tracks = [True], rec_state = RRecording, rec_mimeType = ''audio/webm'',
                   onstop = True, stop_queued = False, stopped = Pending\<rparr>],
      awaiting = 0, duration = 0, timerRef = True\<rparr>"
  by (simp add: restart_after_cancel_trace_def recorder_eval)

lemma upd_session_fields [simp]:
  "status (upd_session i f s) = status s"
  "error (upd_session i f s) = error s"
  "mediaRecorderRef (upd_session i f s) = mediaRecorderRef s"
  "audioChunksRef (upd_session i f s) = audioChunksRef s"
  "streamRef (upd_session i f s) = streamRef s"
  "awaiting (upd_session i f s) = awaiting s"
  "duration (upd_session i f s) = duration s"
  "timerRef (upd_session i f s) = timerRef s"
  "length (sessions (upd_session i f s)) = length (sessions s)"
  by (simp_all add: upd_session_def)

lemma permission_message_plain: "\<not> js_includes permission_message ''Permission denied''"
  by (simp add: permission_message_def)

lemma startRecording_begin_idle:
  "\<not> recorder_is_recording s \<Longrightarrow>
   startRecording_begin s = (True, s\<lparr>status := Inactive, error := None, awaiting := awaiting s + 1\<rparr>)"
  by (simp add: startRecording_begin_def recorder_is_recording_def Let_def split: option.splits)

lemma nth_upd_session:
  "sessions (upd_session i f s) ! j =
     (if j = i \<and> i < length (sessions s) then f (sessions s ! j) else sessions s ! j)"
  by (cases "i < length (sessions s)") (auto simp: upd_session_def nth_list_update list_update_beyond)

lemma recorder_stop_fields [simp]:
  "status (recorder_stop i s) = status s"
  "error (recorder_stop i s) = error s"
  "mediaRecorderRef (recorder_stop i s) = mediaRecorderRef s"
  "audioChunksRef (recorder_stop i s) = audioChunksRef s"
  "streamRef (recorder_stop i s) = streamRef s"
  "awaiting (recorder_stop i s) = awaiting s"
  "duration (recorder_stop i s) = duration s"
  "timerRef (recorder_stop i s) = timerRef s"
  "length (sessions (recorder_stop i s)) = length (sessions s)"
  by (simp_all add: recorder_stop_def)

lemma cancelRecording_fields:
  "status (cancelRecording s) = Inactive"
  "audioChunksRef (cancelRecording s) = []"
  "streamRef (cancelRecording s) = None"
  "error (cancelRecording s) = error s"
  "mediaRecorderRef (cancelRecording s) = mediaRecorderRef s"
  "awaiting (cancelRecording s) = awaiting s"
  "duration (cancelRecording s) = duration s"
  "timerRef (cancelRecording s) = timerRef s"
  "length (sessions (cancelRecording s)) = length (sessions s)"
  by (simp_all add: cancelRecording_def stop_tracks_def Let_def split: option.splits)

lemma cancelRecording_recorder:
  assumes "mediaRecorderRef s = Some i" "i < length (sessions s)"
  shows "rec_state (sessions (cancelRecording s) ! i) \<noteq> RRecording"
    and "\<not> onstop (sessions (cancelRecording s) ! i)"
    and "rec_state (sessions s ! i) = RRecording \<Longrightarrow> rec_state (sessions (cancelRecording s) ! i) = RInactive"
  using assms
  by (auto simp: cancelRecording_def stop_tracks_def recorder_stop_def nth_upd_session Let_def
      split: option.splits)

lemma cancelRecording_tracks:
  assumes "streamRef s = Some k" "k < length (sessions s)"
  shows "tracks (sessions (cancelRecording s) ! k) = map (\<lambda>_. False) (tracks (sessions s ! k))"
  using assms
  by (auto simp: cancelRecording_def stop_tracks_def recorder_stop_def nth_upd_session Let_def
      split: option.splits)

lemma cancelRecording_init: "cancelRecording init = init"
  by (simp add: cancelRecording_def init_def)

lemma step_cancel_init: "step CallCancel init = init"
  by (simp add: step_def handle_def status_effect_def cancelRecording_init)

lemma run_Nil [simp]: "run [] s = s"
  by (simp add: run_def)

lemma run_Cons [simp]: "run (ev # evs) s = run evs (step ev s)"
  by (simp add: run_def)

lemma run_append: "run (xs @ ys) s = run ys (run xs s)"
  by (simp add: run_def)

lemma onstop_handler_fields [simp]:
  "duration (onstop_handler i s) = duration s"
  "timerRef (onstop_handler i s) = timerRef s"
  "awaiting (onstop_handler i s) = awaiting s"
  "error (onstop_handler i s) = error s"
  "mediaRecorderRef (onstop_handler i s) = mediaRecorderRef s"
  "length (sessions (onstop_handler i s)) = length (sessions s)"
  by (simp_all add: onstop_handler_def stop_tracks_def Let_def split: option.splits)

lemma onerror_fields [simp]:
  "duration (onerror i e s) = duration s"
  "timerRef (onerror i e s) = timerRef s"
  "status (onerror i e s) = status s"
  "awaiting (onerror i e s) = awaiting s"
  "audioChunksRef (onerror i e s) = audioChunksRef s"
  "mediaRecorderRef (onerror i e s) = mediaRecorderRef s"
  "streamRef (onerror i e s) = streamRef s"
  "length (sessions (onerror i e s)) = length (sessions s)"
  by (simp_all add: onerror_def Let_def)

lemma ondataavailable_fields [simp]:
  "duration (ondataavailable b s) = duration s"
  "timerRef (ondataavailable b s) = timerRef s"
  "status (ondataavailable b s) = status s"
  "error (ondataavailable b s) = error s"
  "awaiting (ondataavailable b s) = awaiting s"
  "sessions (ondataavailable b s) = sessions s"
  "mediaRecorderRef (ondataavailable b s) = mediaRecorderRef s"
  "streamRef (ondataavailable b s) = streamRef s"
  by (simp_all add: ondataavailable_def)

lemma stopRecording_closure_fields [simp]:
  "duration (stopRecording_closure st s) = duration s"
  "timerRef (stopRecording_closure st s) = timerRef s"
  "status (stopRecording_closure st s) = status s"
  "error (stopRecording_closure st s) = error s"
  "awaiting (stopRecording_closure st s) = awaiting s"
  "audioChunksRef (stopRecording_closure st s) = audioChunksRef s"
  "mediaRecorderRef (stopRecording_closure st s) = mediaRecorderRef s"
  "streamRef (stopRecording_closure st s) = streamRef s"
  "length (sessions (stopRecording_closure st s)) = length (sessions s)"
  by (simp_all add: stopRecording_closure_def split: option.splits)

lemma startRecording_begin_fields [simp]:
  "duration (snd (startRecording_begin s)) = duration s"
  "timerRef (snd (startRecording_begin s)) = timerRef s"
  "status (snd (startRecording_begin s)) = Inactive"
  "audioChunksRef (snd (startRecording_begin s)) = audioChunksRef s"
  "sessions (snd (startRecording_begin s)) = sessions s"
  "mediaRecorderRef (snd (startRecording_begin s)) = mediaRecorderRef s"
  "streamRef (snd (startRecording_begin s)) = streamRef s"
  by (simp_all add: startRecording_begin_def Let_def)

lemma startRecording_resume_fields [simp]:
  "duration (snd (startRecording_resume r s)) = duration s"
  "timerRef (snd (startRecording_resume r s)) = timerRef s"
  "audioChunksRef (snd (startRecording_resume r s)) = audioChunksRef s"
  by (simp_all add: startRecording_resume_def start_catch_def Let_def split: acquire.splits)

lemma handle_timerRef [simp]: "timerRef (handle ev s) = timerRef s"
  by (cases ev) (simp_all add: handle_def stopRecording_def cancelRecording_fields onstart_def
      tick_def Let_def)

lemma handle_duration: "ev \<noteq> Tick \<Longrightarrow> duration (handle ev s) = duration s"
  by (cases ev) (simp_all add: handle_def stopRecording_def cancelRecording_fields onstart_def Let_def)

lemma tick_status [simp]: "status (tick s) = status s"
  by (simp add: tick_def Let_def)

lemma tick_duration_le: "duration s \<le> MAX_DURATION_SECONDS \<Longrightarrow> duration (tick s) \<le> MAX_DURATION_SECONDS"
  by (simp add: tick_def Let_def)

lemma status_effect_duration_le:
  "duration s \<le> MAX_DURATION_SECONDS \<Longrightarrow> duration (status_effect old s) \<le> MAX_DURATION_SECONDS"
  by (simp add: status_effect_def)

lemma step_duration_le:
  "duration s \<le> MAX_DURATION_SECONDS \<Longrightarrow> duration (step ev s) \<le> MAX_DURATION_SECONDS"
proof (cases "ev = Tick")
  case True
  assume "duration s \<le> MAX_DURATION_SECONDS"
  then show ?thesis
    using True by (simp add: step_def handle_def status_effect_duration_le tick_duration_le)
next
  case False
  assume "duration s \<le> MAX_DURATION_SECONDS"
  then show ?thesis
    using False by (simp add: step_def status_effect_duration_le handle_duration)
qed

lemma step_timer_ok: "timer_ok s \<Longrightarrow> timer_ok (step ev s)"
  by (auto simp: timer_ok_def step_def status_effect_def)

lemma run_duration_le:
  "duration s \<le> MAX_DURATION_SECONDS \<Longrightarrow> duration (run evs s) \<le> MAX_DURATION_SECONDS"
  by (induction evs arbitrary: s) (simp_all add: step_duration_le)

lemma run_timer_ok: "timer_ok s \<Longrightarrow> timer_ok (run evs s)"
  by (induction evs arbitrary: s) (simp_all add: step_timer_ok)

lemma init_ok: "duration init \<le> MAX_DURATION_SECONDS" "timer_ok init"
  by (simp_all add: init_def timer_ok_def)

lemma step_Tick: "step Tick s = tick s"
  by (simp add: step_def handle_def status_effect_def)

lemma tick_below_cap:
  "timerRef s \<Longrightarrow> duration s + 1 < MAX_DURATION_SECONDS \<Longrightarrow> tick s = s\<lparr>duration := duration s + 1\<rparr>"
  by (simp add: tick_def Let_def)

lemma tick_at_cap:
  "timerRef s \<Longrightarrow> MAX_DURATION_SECONDS \<le> duration s + 1 \<Longrightarrow>
   tick s = (stopRecording_closure Recording s)\<lparr>duration := MAX_DURATION_SECONDS\<rparr>"
  by (simp add: tick_def Let_def)

lemma ticks_below_cap:
  "timerRef s \<Longrightarrow> duration s + n < MAX_DURATION_SECONDS \<Longrightarrow>
   run (replicate n Tick) s = s\<lparr>duration := duration s + n\<rparr>"
proof (induction n arbitrary: s)
  case 0
  show ?case by simp
next
  case (Suc n)
  have t: "tick s = s\<lparr>duration := duration s + 1\<rparr>"
    using Suc.prems by (intro tick_below_cap) auto
  have "run (replicate n Tick) (tick s) = (tick s)\<lparr>duration := duration (tick s) + n\<rparr>"
    using Suc.prems by (intro Suc.IH) (simp_all add: t)
  then show ?case by (simp add: step_Tick t)
qed

lemma resume_granted:
  "snd (startRecording_resume (Granted n mt) s) =
     s\<lparr>awaiting := awaiting s - 1, sessions := sessions s @ [new_session n mt],
       streamRef := Some (length (sessions s)), status := Recording,
       mediaRecorderRef := Some (length (sessions s))\<rparr>"
  by (simp add: startRecording_resume_def upd_session_def new_session_def Let_def)

lemma start_granted_state:
  assumes "\<not> recorder_is_recording s"
  shows "run [CallStart, AcquireDone (Granted n mt)] s =
     \<lparr>status = Recording, error = None, mediaRecorderRef = Some (length (sessions s)),
      audioChunksRef = audioChunksRef s, streamRef = Some (length (sessions s)),
      sessions = sessions s @ [new_session n mt], awaiting = awaiting s,
      duration = 0, timerRef = True\<rparr>"
  using assms
  by (simp add: step_def handle_def startRecording_begin_idle resume_granted status_effect_def)

lemma stopRecording_closure_duration:
  "stopRecording_closure st (s\<lparr>duration := d\<rparr>) = (stopRecording_closure st s)\<lparr>duration := d\<rparr>"
  by (simp add: stopRecording_closure_def recorder_stop_def upd_session_def split: option.splits)

lemma ticks_to_cap:
  "timerRef s \<Longrightarrow> duration s + n = MAX_DURATION_SECONDS \<Longrightarrow> 0 < n \<Longrightarrow>
   run (replicate n Tick) s = (stopRecording_closure Recording s)\<lparr>duration := MAX_DURATION_SECONDS\<rparr>"
proof (induction n arbitrary: s)
  case 0
  then show ?case by simp
next
  case (Suc n)
  show ?case
  proof (cases "n = 0")
    case True
    with Suc.prems show ?thesis by (simp add: step_Tick tick_at_cap)
  next
    case False
    have t: "tick s = s\<lparr>duration := duration s + 1\<rparr>"
      using Suc.prems False by (intro tick_below_cap) auto
    have "run (replicate n Tick) (tick s) =
            (stopRecording_closure Recording (tick s))\<lparr>duration := MAX_DURATION_SECONDS\<rparr>"
      using Suc.prems False by (intro Suc.IH) (simp_all add: t)
    then show ?thesis by (simp add: step_Tick t stopRecording_closure_duration)
  qed
qed

lemma step_CallStop: "step CallStop s = stopRecording s"
  by (simp add: step_def handle_def status_effect_def stopRecording_def)

lemma empty_fragments_vanish:
  "concat (map bytes (filter (\<lambda>x. 0 < blob_size x) xs)) = concat (map bytes xs)"
  by (induction xs) (simp_all add: blob_size_def)

lemma step_DataAvailable:
  "i < length (sessions s) \<Longrightarrow> step (DataAvailable i b) s = ondataavailable b s"
  by (simp add: step_def handle_def status_effect_def)

lemma run_data:
  "i < length (sessions s) \<Longrightarrow>
   run (map (DataAvailable i) bs) s =
     s\<lparr>audioChunksRef := audioChunksRef s @ filter (\<lambda>x. 0 < blob_size x) bs\<rparr>"
proof (induction bs arbitrary: s)
  case Nil
  show ?case by simp
next
  case (Cons b bs)
  have "i < length (sessions (ondataavailable b s))" using Cons.prems by simp
  from Cons.IH[OF this] Cons.prems show ?case
    by (simp add: step_DataAvailable) (simp add: ondataavailable_def)
qed

lemma stop_then_finalize:
  assumes "status s = Recording" "mediaRecorderRef s = Some i" "i < length (sessions s)"
    "rec_state (sessions s ! i) = RRecording" "onstop (sessions s ! i)"
    "stopped (sessions s ! i) = Pending"
    "mt = (if rec_mimeType (sessions s ! i) = [] then ''audio/webm'' else rec_mimeType (sessions s ! i))"
    "s' = run [CallStop, StopTask i b] s"
  shows "stopped (sessions s' ! i) =
           Resolved \<lparr>p_blob = new_Blob (audioChunksRef s @ filter (\<lambda>x. 0 < blob_size x) [b]) mt,
                     p_mimeType = mt\<rparr>"
    and "status s' = Stopped"
    and "tracks (sessions s' ! i) = map (\<lambda>_. False) (tracks (sessions s ! i))"
    and "streamRef s' = None"
    and "audioChunksRef s' = []"
    and "rec_state (sessions s' ! i) = RInactive"
    and "timerRef s' = False"
  using assms(1-6) unfolding assms(7,8)
  by (simp_all add: step_def handle_def stopRecording_def stopRecording_closure_def recorder_stop_def
      status_effect_def onstop_handler_def stop_tracks_def ondataavailable_def nth_upd_session
      resolve_def Let_def)

lemma reject_not_Resolved: "(\<forall>p. q \<noteq> Resolved p) \<Longrightarrow> reject e q \<noteq> Resolved p"
  by (cases q) (simp_all add: reject_def)

lemma detached_status_effect: "detached i (status_effect old s) = detached i s"
  by (simp add: detached_def status_effect_def)

lemma detached_begin: "detached i s \<Longrightarrow> detached i (snd (startRecording_begin s))"
  by (simp add: detached_def)

lemma detached_resume: "detached i s \<Longrightarrow> detached i (snd (startRecording_resume r s))"
proof (cases r)
  case (Granted n mt)
  assume "detached i s"
  then show ?thesis unfolding Granted by (auto simp: detached_def resume_granted nth_append)
next
  case (Denied e)
  assume "detached i s"
  then show ?thesis unfolding Denied
    by (auto simp: detached_def startRecording_resume_def start_catch_def Let_def)
next
  case (NoRecorder n e)
  assume "detached i s"
  then show ?thesis unfolding NoRecorder
    by (auto simp: detached_def startRecording_resume_def start_catch_def Let_def nth_append)
next
  case (NoStart n mt e)
  assume "detached i s"
  then show ?thesis unfolding NoStart
    by (auto simp: detached_def startRecording_resume_def start_catch_def Let_def nth_append
        nth_upd_session)
qed

lemma detached_recorder_stop: "detached i s \<Longrightarrow> detached i (recorder_stop j s)"
  by (auto simp: detached_def recorder_stop_def nth_upd_session)

lemma detached_stop: "detached i s \<Longrightarrow> detached i (stopRecording s)"
  by (auto simp: stopRecording_def stopRecording_closure_def detached_recorder_stop split: option.splits)

lemma detached_closure: "detached i s \<Longrightarrow> detached i (stopRecording_closure st s)"
  by (auto simp: stopRecording_closure_def detached_recorder_stop split: option.splits)

lemma detached_cancel: "detached i s \<Longrightarrow> detached i (cancelRecording s)"
  by (auto simp: detached_def cancelRecording_def stop_tracks_def recorder_stop_def nth_upd_session
      Let_def split: option.splits)

lemma detached_tick: "detached i s \<Longrightarrow> detached i (tick s)"
  using detached_closure[of i s Recording]
  by (auto simp: tick_def Let_def detached_def)

lemma detached_data: "detached i s \<Longrightarrow> detached i (ondataavailable b s)"
  by (simp add: detached_def)

lemma detached_onstart: "detached i s \<Longrightarrow> detached i (onstart s)"
  by (simp add: detached_def onstart_def)

lemma detached_onerror: "detached i s \<Longrightarrow> detached i (onerror j e s)"
  by (auto simp: detached_def onerror_def nth_upd_session Let_def reject_not_Resolved)

lemma detached_onstop_other:
  "detached i s \<Longrightarrow> j \<noteq> i \<Longrightarrow> detached i (onstop_handler j s)"
  by (auto simp: detached_def onstop_handler_def stop_tracks_def nth_upd_session Let_def
      split: option.splits)

lemma detached_stop_task:
  assumes "detached i s"
  shows "detached i (handle (StopTask j b) s)"
proof (cases "j < length (sessions s) \<and> stop_queued (sessions s ! j)")
  case False
  with assms show ?thesis by (auto simp: handle_def)
next
  case True
  define s1 where "s1 = ondataavailable b (upd_session j (\<lambda>r. r\<lparr>stop_queued := False\<rparr>) s)"
  have d1: "detached i s1"
    using assms unfolding s1_def by (auto simp: detached_def nth_upd_session)
  have h: "handle (StopTask j b) s = (if onstop (sessions s1 ! j) then onstop_handler j s1 else s1)"
    using True by (simp add: handle_def s1_def Let_def)
  show ?thesis
  proof (cases "j = i")
    case True
    with d1 h show ?thesis by (simp add: detached_def)
  next
    case False
    with d1 h show ?thesis by (simp add: detached_onstop_other)
  qed
qed

lemma detached_handle: "detached i s \<Longrightarrow> detached i (handle ev s)"
proof (cases ev)
  case (StopTask j b)
  assume "detached i s"
  then show ?thesis unfolding StopTask by (rule detached_stop_task)
qed (auto simp: handle_def detached_begin detached_resume detached_stop detached_cancel detached_tick
      detached_data detached_onstart detached_onerror)

lemma detached_step: "detached i s \<Longrightarrow> detached i (step ev s)"
  by (simp add: step_def detached_status_effect detached_handle)

lemma detached_run: "detached i s \<Longrightarrow> detached i (run evs s)"
  by (induction evs arbitrary: s) (simp_all add: detached_step)

lemma cancel_detaches:
  assumes "mediaRecorderRef s = Some i" "i < length (sessions s)"
    "\<forall>p. stopped (sessions s ! i) \<noteq> Resolved p"
  shows "detached i (step CallCancel s)"
proof -
  have "detached i (cancelRecording s)"
    using assms
    by (auto simp: detached_def cancelRecording_def stop_tracks_def recorder_stop_def nth_upd_session
        Let_def split: option.splits)
  then show ?thesis by (simp add: step_def handle_def detached_status_effect)
qed

lemma ticks_without_timer: "\<not> timerRef s \<Longrightarrow> run (replicate n Tick) s = s"
  by (induction n) (simp_all add: step_Tick tick_def)

lemma second_start_state:
  "step CallStart (run recording_trace init) =
     (run recording_trace init)\<lparr>status := Inactive, timerRef := False\<rparr>"
  unfolding recording_state by (simp add: recorder_eval)

lemma init_idle: "\<not> recorder_is_recording init"
  by (simp add: recorder_is_recording_def init_def)

lemma recording_trace_unfold: "run recording_trace init = run [CallStart, AcquireDone (Granted 1 ''audio/webm'')] init"
  by (simp add: recording_trace_def granted_def)

lemma unlabelled_state:
  "run unlabelled_trace init =
     \<lparr>status = Recording, error = None, mediaRecorderRef = Some 0, audioChunksRef = [],
      streamRef = Some 0,
      sessions = [\<lparr>tracks = [True, True], rec_state = RRecording, rec_mimeType = [],
                   onstop = True, stop_queued = False, stopped = Pending\<rparr>],
      awaiting = 0, duration = 0, timerRef = True\<rparr>"
  by (simp add: unlabelled_trace_def recorder_eval numeral_2_eq_2)

lemma stop_requested_state:
  "run stop_requested_trace init =
     \<lparr>status = Recording, error = None, mediaRecorderRef = Some 0, audioChunksRef = [fragment],
      streamRef = Some 0,
      sessions = [\<lparr>tracks = [True], rec_state = RInactive, rec_mimeType = ''audio/webm'',
                   onstop = True, stop_queued = True, stopped = Pending\<rparr>],
      awaiting = 0, duration = 0, timerRef = True\<rparr>"
  by (simp add: stop_requested_trace_def recorder_eval)

lemma upd_session_duration:
  "upd_session i f (s\<lparr>duration := d\<rparr>) = (upd_session i f s)\<lparr>duration := d\<rparr>"
  by (simp add: upd_session_def)

lemma ondataavailable_duration:
  "ondataavailable b (s\<lparr>duration := d\<rparr>) = (ondataavailable b s)\<lparr>duration := d\<rparr>"
  by (simp add: ondataavailable_def)

lemma onstop_handler_duration:
  "onstop_handler i (s\<lparr>duration := d\<rparr>) = (onstop_handler i s)\<lparr>duration := d\<rparr>"
  by (cases "mediaRecorderRef s") (simp_all add: onstop_handler_def stop_tracks_def upd_session_def Let_def)

lemma onstop_handler_status:
  "status (onstop_handler i s) = (if mediaRecorderRef s = None then status s else Stopped)"
  by (cases "mediaRecorderRef s") (simp_all add: onstop_handler_def stop_tracks_def Let_def)

lemma handle_StopTask_duration:
  "handle (StopTask i b) (s\<lparr>duration := d\<rparr>) = (handle (StopTask i b) s)\<lparr>duration := d\<rparr>"
  by (simp add: handle_def Let_def upd_session_duration ondataavailable_duration
      onstop_handler_duration)

lemma handle_StopTask_status:
  "status (handle (StopTask i b) s) = status s \<or> status (handle (StopTask i b) s) = Stopped"
  by (simp add: handle_def Let_def onstop_handler_status)

lemma step_StopTask_duration:
  "step (StopTask i b) (s\<lparr>duration := d\<rparr>) = (step (StopTask i b) s)\<lparr>duration := d\<rparr>"
  using handle_StopTask_status[of i b s]
  by (auto simp: step_def status_effect_def handle_StopTask_duration)

lemma cap_tick:
  "timerRef s \<Longrightarrow> status s = Recording \<Longrightarrow> MAX_DURATION_SECONDS \<le> duration s + 1 \<Longrightarrow>
   step Tick s = (step CallStop s)\<lparr>duration := MAX_DURATION_SECONDS\<rparr>"
  by (simp add: step_Tick tick_at_cap step_CallStop stopRecording_def)

lemma cap_finalize:
  "timerRef s \<Longrightarrow> status s = Recording \<Longrightarrow> MAX_DURATION_SECONDS \<le> duration s + 1 \<Longrightarrow>
   run [Tick, StopTask i b] s = (run [CallStop, StopTask i b] s)\<lparr>duration := MAX_DURATION_SECONDS\<rparr>"
  by (simp add: cap_tick step_StopTask_duration)

lemma start_granted_ready:
  assumes "\<not> recorder_is_recording s"
  shows "status (run [CallStart, AcquireDone (Granted n mt)] s) = Recording"
    and "timerRef (run [CallStart, AcquireDone (Granted n mt)] s)"
    and "duration (run [CallStart, AcquireDone (Granted n mt)] s) = 0"
    and "mediaRecorderRef (run [CallStart, AcquireDone (Granted n mt)] s) = Some (length (sessions s))"
    and "length (sessions s) < length (sessions (run [CallStart, AcquireDone (Granted n mt)] s))"
    and "sessions (run [CallStart, AcquireDone (Granted n mt)] s) ! length (sessions s) = new_session n mt"
    and "audioChunksRef (run [CallStart, AcquireDone (Granted n mt)] s) = audioChunksRef s"
  unfolding start_granted_state[OF assms] by simp_all

lemma start_throws_after_grant:
  assumes "\<not> recorder_is_recording s"
  shows "fst (startRecording (NoRecorder n err) s) = RejectedHandle err"
    and "fst (startRecording (NoStart n mt err) s) = RejectedHandle err"
    and "snd (startRecording (NoRecorder n err) s) =
           s\<lparr>status := Inactive, error := error (snd (start_catch err s)),
             streamRef := Some (length (sessions s)),
             sessions := sessions s @
               [\<lparr>tracks = replicate n True, rec_state = RInactive, rec_mimeType = [],
                 onstop = False, stop_queued = False, stopped = Pending\<rparr>]\<rparr>"
    and "snd (startRecording (NoStart n mt err) s) =
           s\<lparr>status := Inactive, error := error (snd (start_catch err s)),
             streamRef := Some (length (sessions s)),
             mediaRecorderRef := Some (length (sessions s)),
             sessions := sessions s @
               [\<lparr>tracks = replicate n True, rec_state = RInactive, rec_mimeType = mt,
                 onstop = True, stop_queued = False, stopped = Pending\<rparr>]\<rparr>"
  using assms
  by (simp_all add: startRecording_def startRecording_begin_idle startRecording_resume_def
      start_catch_def upd_session_def Let_def)

lemma stop_then_finalize_recorder:
  "mediaRecorderRef (run [CallStop, StopTask i b] s) = mediaRecorderRef s"
  by (simp add: step_def handle_def status_effect_def stopRecording_def Let_def)

lemma start_after_finalize_clean:
  assumes "status s = Recording" "mediaRecorderRef s = Some i" "i < length (sessions s)"
    "rec_state (sessions s ! i) = RRecording" "onstop (sessions s ! i)"
    "stopped (sessions s ! i) = Pending"
  shows "audioChunksRef (run [CallStart, AcquireDone (Granted n mt)] (run [CallStop, StopTask i b] s)) = []"
    and "duration (run [CallStart, AcquireDone (Granted n mt)] (run [CallStop, StopTask i b] s)) = 0"
    and "status (run [CallStart, AcquireDone (Granted n mt)] (run [CallStop, StopTask i b] s)) = Recording"
proof -
  note f = stop_then_finalize[OF assms refl refl, of b]
  have idle: "\<not> recorder_is_recording (run [CallStop, StopTask i b] s)"
    unfolding recorder_is_recording_def stop_then_finalize_recorder assms(2) using f(6) by simp
  note r = start_granted_ready[OF idle, of n mt]
  show "audioChunksRef (run [CallStart, AcquireDone (Granted n mt)] (run [CallStop, StopTask i b] s)) = []"
    unfolding r(7) by (rule f(5))
  show "duration (run [CallStart, AcquireDone (Granted n mt)] (run [CallStop, StopTask i b] s)) = 0"
    by (rule r(3))
  show "status (run [CallStart, AcquireDone (Granted n mt)] (run [CallStop, StopTask i b] s)) = Recording"
    by (rule r(1))
qed

subsection \<open>The claims on the recording controller\<close>

text \<open>
  Claim C2 says that \<open>start()\<close> on a session that is recording changes nothing. In the
  code the guard comes after \<open>setStatus('inactive')\<close> and \<open>setError(null)\<close>. So a second
  \<open>startRecording()\<close> while the first session is recording requests no second device and
  leaves the recorder, the stream and the chunk buffer alone, but \<open>status\<close> becomes
  \<open>inactive\<close> while the recorder goes on recording. The effect of the component then
  clears the interval, \<open>stopRecording()\<close> no longer stops the recorder, and 300 ticks
  leave the state as it is.
\<close>

theorem second_start_alters_session:
  "status (run recording_trace init) = Recording \<and>
   recorder_is_recording (run recording_trace init) \<and>
   step CallStart (run recording_trace init) =
     (run recording_trace init)\<lparr>status := Inactive, timerRef := False\<rparr> \<and>
   recorder_is_recording (step CallStart (run recording_trace init)) \<and>
   step CallStop (step CallStart (run recording_trace init)) =
     step CallStart (run recording_trace init) \<and>
   run (replicate 300 Tick) (step CallStart (run recording_trace init)) =
     step CallStart (run recording_trace init)"
proof -
  have "run (replicate 300 Tick) (step CallStart (run recording_trace init)) =
     step CallStart (run recording_trace init)"
    by (rule ticks_without_timer) (simp add: second_start_state)
  moreover have "status (run recording_trace init) = Recording \<and>
   recorder_is_recording (run recording_trace init) \<and>
   step CallStart (run recording_trace init) =
     (run recording_trace init)\<lparr>status := Inactive, timerRef := False\<rparr> \<and>
   recorder_is_recording (step CallStart (run recording_trace init)) \<and>
   step CallStop (step CallStart (run recording_trace init)) =
     step CallStart (run recording_trace init)"
    unfolding second_start_state unfolding recording_state by (simp add: recorder_eval)
  ultimately show ?thesis by blast
qed

text \<open>
  Claim C3: the elapsed-seconds counter never exceeds 300 in any reachable state, and
  while \<open>status\<close> is \<open>recording\<close> the interval runs and a tick adds one to the counter,
  up to 300. In every state \<open>c\<close> in which the interval runs and \<open>status\<close> is
  \<open>recording\<close>, a tick below the cap only counts, and the tick that reaches the cap
  yields the state of an explicit \<open>stop()\<close> with the counter at 300. The recorder's stop
  task then leaves the state that it leaves after an explicit \<open>stop()\<close>: when the
  recorder of \<open>c\<close> is recording with its \<open>onstop\<close> handler, \<open>status\<close> is \<open>stopped\<close>, the
  promise is resolved with the blob of the buffered fragments and the one the task
  delivers, under the recorder's \<open>mimeType\<close>, the buffer is empty, the tracks are
  stopped and \<open>streamRef\<close> is cleared. After a granted \<open>start()\<close> the counter is 0,
  \<open>k < 300\<close> ticks only set it to \<open>k\<close>, and the 300th tick and the stop task end the
  session in this way.
\<close>

theorem duration_cap:
  "MAX_DURATION_SECONDS = 300 \<and>
   (\<forall>evs. duration (run evs init) \<le> MAX_DURATION_SECONDS) \<and>
   (\<forall>evs. status (run evs init) = Recording \<longrightarrow>
      timerRef (run evs init) \<and>
      duration (step Tick (run evs init)) =
        min MAX_DURATION_SECONDS (duration (run evs init) + 1)) \<and>
   (\<forall>evs. status (run evs init) = Recording \<and>
      MAX_DURATION_SECONDS \<le> duration (run evs init) + 1 \<longrightarrow>
      step Tick (run evs init) =
        (step CallStop (run evs init))\<lparr>duration := MAX_DURATION_SECONDS\<rparr>) \<and>
   (timerRef c \<and> status c = Recording \<and> duration c + 1 < MAX_DURATION_SECONDS \<longrightarrow>
      step Tick c = c\<lparr>duration := duration c + 1\<rparr>) \<and>
   (timerRef c \<and> status c = Recording \<and> MAX_DURATION_SECONDS \<le> duration c + 1 \<longrightarrow>
      step Tick c = (step CallStop c)\<lparr>duration := MAX_DURATION_SECONDS\<rparr> \<and>
      run [Tick, StopTask i b] c =
        (run [CallStop, StopTask i b] c)\<lparr>duration := MAX_DURATION_SECONDS\<rparr> \<and>
      (mediaRecorderRef c = Some i \<and> i < length (sessions c) \<and>
       rec_state (sessions c ! i) = RRecording \<and> onstop (sessions c ! i) \<and>
       stopped (sessions c ! i) = Pending \<longrightarrow>
         status (run [Tick, StopTask i b] c) = Stopped \<and>
         stopped (sessions (run [Tick, StopTask i b] c) ! i) =
           Resolved \<lparr>p_blob = new_Blob (audioChunksRef c @ filter (\<lambda>x. 0 < blob_size x) [b])
                                (if rec_mimeType (sessions c ! i) = [] then ''audio/webm''
                                 else rec_mimeType (sessions c ! i)),
                     p_mimeType = (if rec_mimeType (sessions c ! i) = [] then ''audio/webm''
                                   else rec_mimeType (sessions c ! i))\<rparr> \<and>
         audioChunksRef (run [Tick, StopTask i b] c) = [] \<and>
         tracks (sessions (run [Tick, StopTask i b] c) ! i) =
           map (\<lambda>_. False) (tracks (sessions c ! i)) \<and>
         streamRef (run [Tick, StopTask i b] c) = None \<and>
         rec_state (sessions (run [Tick, StopTask i b] c) ! i) = RInactive \<and>
         timerRef (run [Tick, StopTask i b] c) = False \<and>
         duration (run [Tick, StopTask i b] c) = MAX_DURATION_SECONDS)) \<and>
   (\<not> recorder_is_recording s \<longrightarrow>
      status (run [CallStart, AcquireDone (Granted n mt)] s) = Recording \<and>
      duration (run [CallStart, AcquireDone (Granted n mt)] s) = 0 \<and>
      (\<forall>k < 300. run (replicate k Tick) (run [CallStart, AcquireDone (Granted n mt)] s) =
         (run [CallStart, AcquireDone (Granted n mt)] s)\<lparr>duration := k\<rparr>) \<and>
      run (replicate 300 Tick) (run [CallStart, AcquireDone (Granted n mt)] s) =
        (step CallStop (run [CallStart, AcquireDone (Granted n mt)] s))\<lparr>duration := 300\<rparr> \<and>
      run [StopTask (length (sessions s)) b]
          (run (replicate 300 Tick) (run [CallStart, AcquireDone (Granted n mt)] s)) =
        (run [CallStop, StopTask (length (sessions s)) b]
           (run [CallStart, AcquireDone (Granted n mt)] s))\<lparr>duration := 300\<rparr> \<and>
      status (run [StopTask (length (sessions s)) b]
               (run (replicate 300 Tick) (run [CallStart, AcquireDone (Granted n mt)] s))) = Stopped \<and>
      stopped (sessions (run [StopTask (length (sessions s)) b]
               (run (replicate 300 Tick) (run [CallStart, AcquireDone (Granted n mt)] s)))
             ! length (sessions s)) =
        Resolved \<lparr>p_blob = new_Blob (audioChunksRef s @ filter (\<lambda>x. 0 < blob_size x) [b])
                             (if mt = [] then ''audio/webm'' else mt),
                  p_mimeType = (if mt = [] then ''audio/webm'' else mt)\<rparr> \<and>
      audioChunksRef (run [StopTask (length (sessions s)) b]
               (run (replicate 300 Tick) (run [CallStart, AcquireDone (Granted n mt)] s))) = [] \<and>
      tracks (sessions (run [StopTask (length (sessions s)) b]
               (run (replicate 300 Tick) (run [CallStart, AcquireDone (Granted n mt)] s)))
             ! length (sessions s)) = replicate n False \<and>
      streamRef (run [StopTask (length (sessions s)) b]
               (run (replicate 300 Tick) (run [CallStart, AcquireDone (Granted n mt)] s))) = None)"
proof (intro conjI allI impI)
  show "MAX_DURATION_SECONDS = 300" by (simp add: MAX_DURATION_SECONDS_def)
  show "duration (run evs init) \<le> MAX_DURATION_SECONDS" for evs
    by (rule run_duration_le) (rule init_ok)
  show "timerRef (run evs init)" if "status (run evs init) = Recording" for evs
  proof -
    have "timer_ok (run evs init)" by (rule run_timer_ok) (rule init_ok)
    with that show ?thesis by (simp add: timer_ok_def)
  qed
  show "duration (step Tick (run evs init)) = min MAX_DURATION_SECONDS (duration (run evs init) + 1)"
    if "status (run evs init) = Recording" for evs
  proof -
    have "timer_ok (run evs init)" by (rule run_timer_ok) (rule init_ok)
    with that have "timerRef (run evs init)" by (simp add: timer_ok_def)
    then show ?thesis by (simp add: step_Tick tick_def Let_def min_def)
  qed
  show "step Tick (run evs init) =
        (step CallStop (run evs init))\<lparr>duration := MAX_DURATION_SECONDS\<rparr>"
    if "status (run evs init) = Recording \<and> MAX_DURATION_SECONDS \<le> duration (run evs init) + 1"
    for evs
  proof -
    have "timer_ok (run evs init)" by (rule run_timer_ok) (rule init_ok)
    with that have "timerRef (run evs init)" by (simp add: timer_ok_def)
    with that show ?thesis by (simp add: cap_tick)
  qed
next
  assume "timerRef c \<and> status c = Recording \<and> duration c + 1 < MAX_DURATION_SECONDS"
  then show "step Tick c = c\<lparr>duration := duration c + 1\<rparr>"
    by (simp add: step_Tick tick_below_cap)
next
  assume a: "timerRef c \<and> status c = Recording \<and> MAX_DURATION_SECONDS \<le> duration c + 1"
  then show "step Tick c = (step CallStop c)\<lparr>duration := MAX_DURATION_SECONDS\<rparr>"
    by (simp add: cap_tick)
  from a show fin: "run [Tick, StopTask i b] c =
        (run [CallStop, StopTask i b] c)\<lparr>duration := MAX_DURATION_SECONDS\<rparr>"
    by (intro cap_finalize) simp_all
  assume r: "mediaRecorderRef c = Some i \<and> i < length (sessions c) \<and>
       rec_state (sessions c ! i) = RRecording \<and> onstop (sessions c ! i) \<and>
       stopped (sessions c ! i) = Pending"
  have pre: "status c = Recording" "mediaRecorderRef c = Some i" "i < length (sessions c)"
    "rec_state (sessions c ! i) = RRecording" "onstop (sessions c ! i)"
    "stopped (sessions c ! i) = Pending"
    using a r by simp_all
  note f = stop_then_finalize[OF pre refl refl, of b]
  show "status (run [Tick, StopTask i b] c) = Stopped"
    unfolding fin using f(2) by simp
  show "stopped (sessions (run [Tick, StopTask i b] c) ! i) =
           Resolved \<lparr>p_blob = new_Blob (audioChunksRef c @ filter (\<lambda>x. 0 < blob_size x) [b])
                                (if rec_mimeType (sessions c ! i) = [] then ''audio/webm''
                                 else rec_mimeType (sessions c ! i)),
                     p_mimeType = (if rec_mimeType (sessions c ! i) = [] then ''audio/webm''
                                   else rec_mimeType (sessions c ! i))\<rparr>"
    unfolding fin using f(1) by simp
  show "audioChunksRef (run [Tick, StopTask i b] c) = []"
    unfolding fin using f(5) by simp
  show "tracks (sessions (run [Tick, StopTask i b] c) ! i) = map (\<lambda>_. False) (tracks (sessions c ! i))"
    unfolding fin using f(3) by simp
  show "streamRef (run [Tick, StopTask i b] c) = None"
    unfolding fin using f(4) by simp
  show "rec_state (sessions (run [Tick, StopTask i b] c) ! i) = RInactive"
    unfolding fin using f(6) by simp
  show "timerRef (run [Tick, StopTask i b] c) = False"
    unfolding fin using f(7) by simp
  show "duration (run [Tick, StopTask i b] c) = MAX_DURATION_SECONDS"
    unfolding fin by simp
next
  assume idle: "\<not> recorder_is_recording s"
  define s1 where "s1 = run [CallStart, AcquireDone (Granted n mt)] s"
  note rdy = start_granted_ready[OF idle, of n mt, folded s1_def]
  show "status (run [CallStart, AcquireDone (Granted n mt)] s) = Recording"
    unfolding s1_def[symmetric] by (rule rdy)
  show "duration (run [CallStart, AcquireDone (Granted n mt)] s) = 0"
    unfolding s1_def[symmetric] by (rule rdy)
  show "run (replicate k Tick) (run [CallStart, AcquireDone (Granted n mt)] s) =
         (run [CallStart, AcquireDone (Granted n mt)] s)\<lparr>duration := k\<rparr>" if "k < 300" for k
    unfolding s1_def[symmetric]
    using ticks_below_cap[of s1 k] that by (simp add: rdy MAX_DURATION_SECONDS_def)
  have cap: "run (replicate 300 Tick) s1 = (stopRecording s1)\<lparr>duration := 300\<rparr>"
    using ticks_to_cap[of s1 300] by (simp add: rdy MAX_DURATION_SECONDS_def stopRecording_def)
  show "run (replicate 300 Tick) (run [CallStart, AcquireDone (Granted n mt)] s) =
        (step CallStop (run [CallStart, AcquireDone (Granted n mt)] s))\<lparr>duration := 300\<rparr>"
    unfolding s1_def[symmetric] by (simp add: cap step_CallStop)
  have fin: "run [StopTask (length (sessions s)) b] (run (replicate 300 Tick) s1) =
               (run [CallStop, StopTask (length (sessions s)) b] s1)\<lparr>duration := 300\<rparr>"
    unfolding cap by (simp add: step_CallStop step_StopTask_duration)
  show "run [StopTask (length (sessions s)) b]
          (run (replicate 300 Tick) (run [CallStart, AcquireDone (Granted n mt)] s)) =
        (run [CallStop, StopTask (length (sessions s)) b]
           (run [CallStart, AcquireDone (Granted n mt)] s))\<lparr>duration := 300\<rparr>"
    unfolding s1_def[symmetric] by (rule fin)
  have pre: "status s1 = Recording" "mediaRecorderRef s1 = Some (length (sessions s))"
    "length (sessions s) < length (sessions s1)"
    "rec_state (sessions s1 ! length (sessions s)) = RRecording"
    "onstop (sessions s1 ! length (sessions s))"
    "stopped (sessions s1 ! length (sessions s)) = Pending"
    by (simp_all add: rdy new_session_def)
  note f = stop_then_finalize[OF pre refl refl, of b]
  show "status (run [StopTask (length (sessions s)) b]
               (run (replicate 300 Tick) (run [CallStart, AcquireDone (Granted n mt)] s))) = Stopped"
    unfolding s1_def[symmetric] fin using f(2) by simp
  show "stopped (sessions (run [StopTask (length (sessions s)) b]
               (run (replicate 300 Tick) (run [CallStart, AcquireDone (Granted n mt)] s)))
             ! length (sessions s)) =
        Resolved \<lparr>p_blob = new_Blob (audioChunksRef s @ filter (\<lambda>x. 0 < blob_size x) [b])
                             (if mt = [] then ''audio/webm'' else mt),
                  p_mimeType = (if mt = [] then ''audio/webm'' else mt)\<rparr>"
    unfolding s1_def[symmetric] fin using f(1) by (simp add: rdy new_session_def)
  show "audioChunksRef (run [StopTask (length (sessions s)) b]
               (run (replicate 300 Tick) (run [CallStart, AcquireDone (Granted n mt)] s))) = []"
    unfolding s1_def[symmetric] fin using f(5) by simp
  show "tracks (sessions (run [StopTask (length (sessions s)) b]
               (run (replicate 300 Tick) (run [CallStart, AcquireDone (Granted n mt)] s)))
             ! length (sessions s)) = replicate n False"
    unfolding s1_def[symmetric] fin using f(3) by (simp add: rdy new_session_def)
  show "streamRef (run [StopTask (length (sessions s)) b]
               (run (replicate 300 Tick) (run [CallStart, AcquireDone (Granted n mt)] s))) = None"
    unfolding s1_def[symmetric] fin using f(4) by simp
qed


text \<open>
  The cap on the run that starts one session from the initial state, and at the
  state of that session after 299 seconds.
\<close>

theorem duration_cap_witness:
  "status (run recording_trace init) = Recording \<and>
   duration (run recording_trace init) = 0 \<and>
   timerRef (run recording_trace init) \<and>
   step Tick (run recording_trace init) = (run recording_trace init)\<lparr>duration := 1\<rparr> \<and>
   run (replicate 299 Tick) (run recording_trace init) = (run recording_trace init)\<lparr>duration := 299\<rparr> \<and>
   step Tick ((run recording_trace init)\<lparr>duration := 299\<rparr>) =
     (step CallStop ((run recording_trace init)\<lparr>duration := 299\<rparr>))\<lparr>duration := 300\<rparr> \<and>
   run (replicate 300 Tick) (run recording_trace init) =
     (step CallStop (run recording_trace init))\<lparr>duration := 300\<rparr> \<and>
   status (run [StopTask 0 fragment] (run (replicate 300 Tick) (run recording_trace init))) = Stopped \<and>
   stopped (sessions (run [StopTask 0 fragment] (run (replicate 300 Tick) (run recording_trace init))) ! 0) =
     Resolved \<lparr>p_blob = \<lparr>bytes = [1, 2, 3], btype = ''audio/webm''\<rparr>, p_mimeType = ''audio/webm''\<rparr> \<and>
   audioChunksRef (run [StopTask 0 fragment] (run (replicate 300 Tick) (run recording_trace init))) = [] \<and>
   tracks (sessions (run [StopTask 0 fragment] (run (replicate 300 Tick) (run recording_trace init))) ! 0) =
     [False] \<and>
   streamRef (run [StopTask 0 fragment] (run (replicate 300 Tick) (run recording_trace init))) = None \<and>
   stopped (sessions (run [Tick, StopTask 0 fragment] ((run recording_trace init)\<lparr>duration := 299\<rparr>)) ! 0) =
     Resolved \<lparr>p_blob = \<lparr>bytes = [1, 2, 3], btype = ''audio/webm''\<rparr>, p_mimeType = ''audio/webm''\<rparr> \<and>
   status (run [Tick, StopTask 0 fragment] ((run recording_trace init)\<lparr>duration := 299\<rparr>)) = Stopped \<and>
   duration (run [Tick, StopTask 0 fragment] ((run recording_trace init)\<lparr>duration := 299\<rparr>)) = 300"
proof -
  let ?r = "run recording_trace init"
  let ?c = "(run recording_trace init)\<lparr>duration := 299\<rparr>"
  let ?p = "\<lparr>p_blob = \<lparr>bytes = [1, 2, 3], btype = ''audio/webm''\<rparr>, p_mimeType = ''audio/webm''\<rparr>"
  have len: "length (sessions init) = 0" by (simp add: init_def)
  have pay: "\<lparr>p_blob = new_Blob (audioChunksRef init @ filter (\<lambda>x. 0 < blob_size x) [fragment])
                 (if ''audio/webm'' = [] then ''audio/webm'' else ''audio/webm''),
              p_mimeType = (if ''audio/webm'' = [] then ''audio/webm'' else ''audio/webm'')\<rparr> = ?p"
    by (simp add: init_def new_Blob_def blob_size_def fragment_def)
  have payc: "\<lparr>p_blob = new_Blob (audioChunksRef ?c @ filter (\<lambda>x. 0 < blob_size x) [fragment])
                 (if rec_mimeType (sessions ?c ! 0) = [] then ''audio/webm''
                  else rec_mimeType (sessions ?c ! 0)),
              p_mimeType = (if rec_mimeType (sessions ?c ! 0) = [] then ''audio/webm''
                            else rec_mimeType (sessions ?c ! 0))\<rparr> = ?p"
    by (simp add: recording_state new_Blob_def blob_size_def fragment_def)
  have tr: "replicate 1 False = [False]" by simp
  have m: "MAX_DURATION_SECONDS = 300" by (simp add: MAX_DURATION_SECONDS_def)
  have cap: "timerRef ?c \<and> status ?c = Recording \<and> 300 \<le> duration ?c + 1"
    by (simp add: recording_state)
  have rec: "mediaRecorderRef ?c = Some 0 \<and> 0 < length (sessions ?c) \<and>
       rec_state (sessions ?c ! 0) = RRecording \<and> onstop (sessions ?c ! 0) \<and>
       stopped (sessions ?c ! 0) = Pending"
    by (simp add: recording_state)
  note d = duration_cap[where c = "?c" and i = 0 and b = fragment and s = init and n = 1
      and mt = "''audio/webm''", folded recording_trace_unfold, unfolded len pay payc tr m]
  from d init_idle
  have f: "status ?r = Recording \<and> duration ?r = 0 \<and>
      (\<forall>k < 300. run (replicate k Tick) ?r = ?r\<lparr>duration := k\<rparr>) \<and>
      run (replicate 300 Tick) ?r = (step CallStop ?r)\<lparr>duration := 300\<rparr> \<and>
      status (run [StopTask 0 fragment] (run (replicate 300 Tick) ?r)) = Stopped \<and>
      stopped (sessions (run [StopTask 0 fragment] (run (replicate 300 Tick) ?r)) ! 0) = Resolved ?p \<and>
      audioChunksRef (run [StopTask 0 fragment] (run (replicate 300 Tick) ?r)) = [] \<and>
      tracks (sessions (run [StopTask 0 fragment] (run (replicate 300 Tick) ?r)) ! 0) = [False] \<and>
      streamRef (run [StopTask 0 fragment] (run (replicate 300 Tick) ?r)) = None"
    by blast
  then have "\<forall>k < 300. run (replicate k Tick) ?r = ?r\<lparr>duration := k\<rparr>" by blast
  moreover have "(299::nat) < 300" by simp
  ultimately have k: "run (replicate 299 Tick) ?r = ?r\<lparr>duration := 299\<rparr>" by blast
  from d cap rec
  have g: "step Tick ?c = (step CallStop ?c)\<lparr>duration := 300\<rparr> \<and>
      status (run [Tick, StopTask 0 fragment] ?c) = Stopped \<and>
      stopped (sessions (run [Tick, StopTask 0 fragment] ?c) ! 0) = Resolved ?p \<and>
      duration (run [Tick, StopTask 0 fragment] ?c) = 300"
    by blast
  have low: "timerRef ?r \<and> status ?r = Recording \<and> duration ?r + 1 < 300"
    by (simp add: recording_state)
  have one: "duration ?r + 1 = 1" by (simp add: recording_state)
  note e = duration_cap[where c = "?r" and i = 0 and b = fragment and s = init and n = 1
      and mt = "''audio/webm''", unfolded m]
  from e low have "timerRef ?r \<and> step Tick ?r = ?r\<lparr>duration := duration ?r + 1\<rparr>" by blast
  then have h: "timerRef ?r \<and> step Tick ?r = ?r\<lparr>duration := 1\<rparr>" unfolding one .
  from f k g h show ?thesis by blast
qed

text \<open>
  Claim C4: \<open>stop()\<close> on a recording session whose fragments \<open>bs\<close> have arrived, and
  whose stop task delivers \<open>b\<close>, resolves the promise of the session with one blob: the
  fragments of the buffer, then \<open>bs\<close>, then \<open>b\<close>, concatenated in that order (fragments of
  size 0 are not stored and add no bytes), labelled with the recorder's \<open>mimeType\<close>, or
  with \<open>audio/webm\<close> when that is empty. \<open>status\<close> becomes \<open>stopped\<close>, every track of the
  stream is stopped and \<open>streamRef\<close> is cleared.
\<close>

theorem stop_finalizes:
  "status s = Recording \<Longrightarrow> mediaRecorderRef s = Some i \<Longrightarrow> i < length (sessions s) \<Longrightarrow>
   rec_state (sessions s ! i) = RRecording \<Longrightarrow> onstop (sessions s ! i) \<Longrightarrow>
   stopped (sessions s ! i) = Pending \<Longrightarrow>
   mt = (if rec_mimeType (sessions s ! i) = [] then ''audio/webm'' else rec_mimeType (sessions s ! i)) \<Longrightarrow>
   s' = run (map (DataAvailable i) bs @ [CallStop, StopTask i b]) s \<Longrightarrow>
   stopped (sessions s' ! i) =
     Resolved \<lparr>p_blob = new_Blob (audioChunksRef s @ filter (\<lambda>x. 0 < blob_size x) (bs @ [b])) mt,
               p_mimeType = mt\<rparr> \<and>
   bytes (new_Blob (audioChunksRef s @ filter (\<lambda>x. 0 < blob_size x) (bs @ [b])) mt) =
     concat (map bytes (audioChunksRef s)) @ concat (map bytes bs) @ bytes b \<and>
   btype (new_Blob (audioChunksRef s @ filter (\<lambda>x. 0 < blob_size x) (bs @ [b])) mt) = mt \<and>
   status s' = Stopped \<and>
   tracks (sessions s' ! i) = map (\<lambda>_. False) (tracks (sessions s ! i)) \<and>
   streamRef s' = None \<and>
   rec_state (sessions s' ! i) = RInactive"
proof -
  assume a: "status s = Recording" "mediaRecorderRef s = Some i" "i < length (sessions s)"
    "rec_state (sessions s ! i) = RRecording" "onstop (sessions s ! i)"
    "stopped (sessions s ! i) = Pending"
    and mt: "mt = (if rec_mimeType (sessions s ! i) = [] then ''audio/webm'' else rec_mimeType (sessions s ! i))"
    and s': "s' = run (map (DataAvailable i) bs @ [CallStop, StopTask i b]) s"
  define s0 where "s0 = run (map (DataAvailable i) bs) s"
  have s0: "s0 = s\<lparr>audioChunksRef := audioChunksRef s @ filter (\<lambda>x. 0 < blob_size x) bs\<rparr>"
    unfolding s0_def using a(3) by (rule run_data)
  have pre: "status s0 = Recording" "mediaRecorderRef s0 = Some i" "i < length (sessions s0)"
    "rec_state (sessions s0 ! i) = RRecording" "onstop (sessions s0 ! i)"
    "stopped (sessions s0 ! i) = Pending"
    using a by (simp_all add: s0)
  have mt0: "mt = (if rec_mimeType (sessions s0 ! i) = [] then ''audio/webm'' else rec_mimeType (sessions s0 ! i))"
    using mt by (simp add: s0)
  have s'0: "s' = run [CallStop, StopTask i b] s0"
    unfolding s' s0_def by (simp only: run_append)
  note fin = stop_then_finalize[OF pre mt0 s'0]
  have "bytes (new_Blob (audioChunksRef s @ filter (\<lambda>x. 0 < blob_size x) (bs @ [b])) mt) =
     concat (map bytes (audioChunksRef s)) @ concat (map bytes (filter (\<lambda>x. 0 < blob_size x) (bs @ [b])))"
    by (simp add: new_Blob_def)
  also have "\<dots> = concat (map bytes (audioChunksRef s)) @ concat (map bytes bs) @ bytes b"
    unfolding empty_fragments_vanish by simp
  finally have bytes_eq: "bytes (new_Blob (audioChunksRef s @ filter (\<lambda>x. 0 < blob_size x) (bs @ [b])) mt) =
     concat (map bytes (audioChunksRef s)) @ concat (map bytes bs) @ bytes b" .
  have chunks: "audioChunksRef s0 @ filter (\<lambda>x. 0 < blob_size x) [b] =
      audioChunksRef s @ filter (\<lambda>x. 0 < blob_size x) (bs @ [b])"
    by (simp add: s0)
  have "stopped (sessions s' ! i) =
     Resolved \<lparr>p_blob = new_Blob (audioChunksRef s @ filter (\<lambda>x. 0 < blob_size x) (bs @ [b])) mt,
               p_mimeType = mt\<rparr>"
    using fin(1) unfolding chunks .
  moreover have "tracks (sessions s' ! i) = map (\<lambda>_. False) (tracks (sessions s ! i))"
    using fin(3) by (simp add: s0)
  moreover have "btype (new_Blob (audioChunksRef s @ filter (\<lambda>x. 0 < blob_size x) (bs @ [b])) mt) = mt"
    by (simp add: new_Blob_def)
  ultimately show ?thesis
    using bytes_eq fin(2,4,6) by blast
qed

text \<open>
  A recorder with two tracks and no \<open>mimeType\<close>: one fragment arrives, \<open>stop()\<close> is
  called, and the stop task delivers another.
\<close>

theorem stop_finalizes_witness:
  "stopped (sessions (run (map (DataAvailable 0) [fragment] @ [CallStop, StopTask 0 fragment])
                       (run unlabelled_trace init)) ! 0) =
     Resolved \<lparr>p_blob = \<lparr>bytes = [1, 2, 3, 1, 2, 3], btype = ''audio/webm''\<rparr>,
               p_mimeType = ''audio/webm''\<rparr> \<and>
   status (run (map (DataAvailable 0) [fragment] @ [CallStop, StopTask 0 fragment])
            (run unlabelled_trace init)) = Stopped \<and>
   tracks (sessions (run (map (DataAvailable 0) [fragment] @ [CallStop, StopTask 0 fragment])
                       (run unlabelled_trace init)) ! 0) = [False, False]"
proof -
  have pre: "status (run unlabelled_trace init) = Recording"
    "mediaRecorderRef (run unlabelled_trace init) = Some 0"
    "0 < length (sessions (run unlabelled_trace init))"
    "rec_state (sessions (run unlabelled_trace init) ! 0) = RRecording"
    "onstop (sessions (run unlabelled_trace init) ! 0)"
    "stopped (sessions (run unlabelled_trace init) ! 0) = Pending"
    by (simp_all add: unlabelled_state)
  have mt: "''audio/webm'' =
    (if rec_mimeType (sessions (run unlabelled_trace init) ! 0) = [] then ''audio/webm''
     else rec_mimeType (sessions (run unlabelled_trace init) ! 0))"
    by (simp add: unlabelled_state)
  show ?thesis
    using stop_finalizes[OF pre mt refl, of "[fragment]" fragment]
    by (simp add: unlabelled_state new_Blob_def blob_size_def fragment_def)
qed

text \<open>
  Claim C5: \<open>cancel()\<close> on a session whose promise has not been resolved, in particular
  one whose \<open>stop()\<close> has been requested and whose stop task is still queued, detaches
  the \<open>onstop\<close> handler, and in no state reached afterwards, by any events, is the
  promise of that session resolved with a payload.
\<close>

theorem cancel_prevents_delivery:
  "mediaRecorderRef s = Some i \<Longrightarrow> i < length (sessions s) \<Longrightarrow>
   (\<forall>p. stopped (sessions s ! i) \<noteq> Resolved p) \<Longrightarrow>
   \<not> onstop (sessions (step CallCancel s) ! i) \<and>
   (\<forall>evs p. stopped (sessions (run evs (step CallCancel s)) ! i) \<noteq> Resolved p)"
proof -
  assume a: "mediaRecorderRef s = Some i" "i < length (sessions s)"
    "\<forall>p. stopped (sessions s ! i) \<noteq> Resolved p"
  have d: "detached i (step CallCancel s)" using a by (rule cancel_detaches)
  have "detached i (run evs (step CallCancel s))" for evs using d by (rule detached_run)
  with d show ?thesis by (simp add: detached_def)
qed

text \<open>
  \<open>stop()\<close> has been requested, \<open>cancel()\<close> is called, and then the queued stop task
  runs: the promise is not resolved.
\<close>

theorem cancel_prevents_delivery_witness:
  "stop_queued (sessions (run stop_requested_trace init) ! 0) \<and>
   stopped (sessions (run stop_requested_trace init) ! 0) = Pending \<and>
   \<not> onstop (sessions (step CallCancel (run stop_requested_trace init)) ! 0) \<and>
   stopped (sessions (run [StopTask 0 fragment] (step CallCancel (run stop_requested_trace init))) ! 0)
     \<noteq> Resolved \<lparr>p_blob = new_Blob [fragment, fragment] ''audio/webm'', p_mimeType = ''audio/webm''\<rparr>"
proof -
  have pre: "mediaRecorderRef (run stop_requested_trace init) = Some 0"
    "0 < length (sessions (run stop_requested_trace init))"
    "\<forall>p. stopped (sessions (run stop_requested_trace init) ! 0) \<noteq> Resolved p"
    by (simp_all add: stop_requested_state)
  note c = cancel_prevents_delivery[OF pre]
  from c have 1: "\<not> onstop (sessions (step CallCancel (run stop_requested_trace init)) ! 0)"
    by blast
  from c have 2: "stopped (sessions (run [StopTask 0 fragment]
        (step CallCancel (run stop_requested_trace init))) ! 0)
     \<noteq> Resolved \<lparr>p_blob = new_Blob [fragment, fragment] ''audio/webm'', p_mimeType = ''audio/webm''\<rparr>"
    by blast
  have 3: "stop_queued (sessions (run stop_requested_trace init) ! 0) \<and>
     stopped (sessions (run stop_requested_trace init) ! 0) = Pending"
    by (simp add: stop_requested_state)
  show ?thesis using 1 2 3 by blast
qed

text \<open>
  Claim C6, as the code has it. When \<open>getUserMedia\<close> rejects, \<open>startRecording\<close> returns
  a rejected promise and does not throw, \<open>status\<close> is \<open>inactive\<close>, and \<open>error\<close> holds a
  message: the permission message when the message of the failure contains the text
  \<open>Permission denied\<close>, whatever the name of the failure (the permission message is
  then another text than the failure's), and otherwise the message of the failure
  itself, or a fixed text when the rejected value is not an \<open>Error\<close>. Nothing else has
  changed, and a following granted \<open>startRecording\<close> ends in \<open>recording\<close>.
\<close>

theorem acquisition_failure_reported:
  "\<not> recorder_is_recording s \<Longrightarrow>
   startRecording (Denied (Error n m)) s =
     (RejectedHandle (Error n m),
      s\<lparr>status := Inactive,
        error := Some (if js_includes m ''Permission denied'' then permission_message else m)\<rparr>) \<and>
   (js_includes m ''Permission denied'' \<longrightarrow> permission_message \<noteq> m) \<and>
   startRecording (Denied (NonError v)) s =
     (RejectedHandle (NonError v),
      s\<lparr>status := Inactive, error := Some ''Could not access microphone.''\<rparr>) \<and>
   status (snd (startRecording (Granted k mt) (snd (startRecording (Denied e) s)))) = Recording"
proof (intro conjI impI)
  assume a: "\<not> recorder_is_recording s"
  show "startRecording (Denied (Error n m)) s =
           (RejectedHandle (Error n m),
            s\<lparr>status := Inactive,
              error := Some (if js_includes m ''Permission denied'' then permission_message else m)\<rparr>)"
    using a
    by (simp add: startRecording_def startRecording_begin_idle startRecording_resume_def
        start_catch_def Let_def)
  show "permission_message \<noteq> m" if "js_includes m ''Permission denied''"
    using that permission_message_plain by auto
  show "startRecording (Denied (NonError v)) s =
           (RejectedHandle (NonError v),
            s\<lparr>status := Inactive, error := Some ''Could not access microphone.''\<rparr>)"
    using a
    by (simp add: startRecording_def startRecording_begin_idle startRecording_resume_def
        start_catch_def Let_def)
  show "status (snd (startRecording (Granted k mt) (snd (startRecording (Denied e) s)))) = Recording"
    using a
    by (cases e)
       (simp_all add: startRecording_def startRecording_begin_idle startRecording_resume_def
        start_catch_def startRecording_begin_def recorder_is_recording_def Let_def
        split: option.splits)
qed

text \<open>A denied permission and a missing device, from the initial state.\<close>

theorem acquisition_failure_reported_witness:
  "startRecording (Denied (Error ''NotAllowedError'' ''Permission denied'')) init =
     (RejectedHandle (Error ''NotAllowedError'' ''Permission denied''),
      init\<lparr>status := Inactive, error := Some permission_message\<rparr>) \<and>
   startRecording (Denied (Error ''NotFoundError'' ''Requested device not found'')) init =
     (RejectedHandle (Error ''NotFoundError'' ''Requested device not found''),
      init\<lparr>status := Inactive, error := Some ''Requested device not found''\<rparr>)"
proof -
  have idle: "\<not> recorder_is_recording init"
    by (simp add: recorder_is_recording_def init_def)
  show ?thesis
    using acquisition_failure_reported[OF idle, of "''NotAllowedError''" "''Permission denied''"]
      acquisition_failure_reported[OF idle, of "''NotFoundError''" "''Requested device not found''"]
    by simp
qed

text \<open>
  Claim C6 as the specification words it shows the permission message when the reason
  of the failure is a denied permission. \<open>getUserMedia\<close> tells that reason by the name
  \<open>NotAllowedError\<close> of the error it rejects with, and the wording of the message is the
  browser's. The code does not read the name: a \<open>NotAllowedError\<close> whose message is
  \<open>Permission dismissed\<close>, or the sentence of \<open>not_allowed_message\<close>, is shown with its
  own message, and a \<open>NotFoundError\<close> whose message is \<open>Permission denied\<close> is shown with
  the permission message.
\<close>

theorem permission_denial_by_wording:
  "startRecording (Denied (Error ''NotAllowedError'' ''Permission dismissed'')) init =
     (RejectedHandle (Error ''NotAllowedError'' ''Permission dismissed''),
      init\<lparr>status := Inactive, error := Some ''Permission dismissed''\<rparr>) \<and>
   startRecording (Denied (Error ''NotAllowedError'' not_allowed_message)) init =
     (RejectedHandle (Error ''NotAllowedError'' not_allowed_message),
      init\<lparr>status := Inactive, error := Some not_allowed_message\<rparr>) \<and>
   ''Permission dismissed'' \<noteq> permission_message \<and>
   not_allowed_message \<noteq> permission_message \<and>
   startRecording (Denied (Error ''NotFoundError'' ''Permission denied'')) init =
     (RejectedHandle (Error ''NotFoundError'' ''Permission denied''),
      init\<lparr>status := Inactive, error := Some permission_message\<rparr>) \<and>
   ''Permission denied'' \<noteq> permission_message"
  by (simp add: recorder_eval not_allowed_message_def permission_message_def)

text \<open>
  Claim C7: in every state \<open>cancel()\<close> sets \<open>status\<close> to \<open>inactive\<close>, empties the chunk
  buffer, stops every track of the held stream and clears \<open>streamRef\<close>, detaches
  \<open>onstop\<close>, stops the recorder when it is recording, and leaves \<open>error\<close> as it is. In
  the initial state, where no session was ever started, it changes nothing.
\<close>

theorem cancel_resets:
  "status (cancelRecording s) = Inactive \<and>
   audioChunksRef (cancelRecording s) = [] \<and>
   streamRef (cancelRecording s) = None \<and>
   error (cancelRecording s) = error s \<and>
   (\<forall>i. mediaRecorderRef s = Some i \<and> i < length (sessions s) \<longrightarrow>
        rec_state (sessions (cancelRecording s) ! i) \<noteq> RRecording \<and>
        \<not> onstop (sessions (cancelRecording s) ! i) \<and>
        (rec_state (sessions s ! i) = RRecording \<longrightarrow>
           rec_state (sessions (cancelRecording s) ! i) = RInactive)) \<and>
   (\<forall>k. streamRef s = Some k \<and> k < length (sessions s) \<longrightarrow>
        tracks (sessions (cancelRecording s) ! k) = map (\<lambda>_. False) (tracks (sessions s ! k))) \<and>
   cancelRecording init = init \<and>
   step CallCancel init = init"
  using cancelRecording_recorder[of s] cancelRecording_tracks[of s]
  by (simp add: cancelRecording_fields cancelRecording_init step_cancel_init)

text \<open>\<open>cancel()\<close> on a session that is recording.\<close>

theorem cancel_resets_witness:
  "status (cancelRecording (run recording_trace init)) = Inactive \<and>
   audioChunksRef (cancelRecording (run recording_trace init)) = [] \<and>
   streamRef (cancelRecording (run recording_trace init)) = None \<and>
   rec_state (sessions (cancelRecording (run recording_trace init)) ! 0) = RInactive \<and>
   \<not> onstop (sessions (cancelRecording (run recording_trace init)) ! 0) \<and>
   tracks (sessions (cancelRecording (run recording_trace init)) ! 0) = [False]"
  using cancel_resets[of "run recording_trace init"]
  by (simp add: recording_state)

text \<open>
  Claim C8 says that a new session never begins with fragments left over from a
  previous one. \<open>cancelRecording\<close> empties the chunk buffer and detaches \<open>onstop\<close>, but
  it leaves \<open>ondataavailable\<close> attached, and the \<open>stop()\<close> it calls queues a task that
  delivers the recorded data after \<open>cancelRecording\<close> has returned. So a session is
  started from the initial state with an empty buffer and cancelled while recording;
  the buffer is empty after \<open>cancel()\<close>; the stop task of the cancelled recorder puts
  its fragment into the buffer; the next session begins with that fragment, and when
  it is stopped its payload starts with the fragment of the cancelled session. The
  counter is 0 at the start of the second session.
\<close>

theorem restart_keeps_old_fragments:
  "audioChunksRef (run [CallStart, AcquireDone granted] init) = [] \<and>
   audioChunksRef (run [CallStart, AcquireDone granted, CallCancel] init) = [] \<and>
   \<not> onstop (sessions (run [CallStart, AcquireDone granted, CallCancel] init) ! 0) \<and>
   stop_queued (sessions (run [CallStart, AcquireDone granted, CallCancel] init) ! 0) \<and>
   audioChunksRef (run [CallStart, AcquireDone granted, CallCancel, StopTask 0 fragment] init) =
     [fragment] \<and>
   status (run restart_after_cancel_trace init) = Recording \<and>
   mediaRecorderRef (run restart_after_cancel_trace init) = Some 1 \<and>
   duration (run restart_after_cancel_trace init) = 0 \<and>
   audioChunksRef (run restart_after_cancel_trace init) = [fragment] \<and>
   audioChunksRef (run restart_after_cancel_trace init) \<noteq> [] \<and>
   stopped (sessions (run [CallStop, StopTask 1 fragment] (run restart_after_cancel_trace init)) ! 1) =
     Resolved \<lparr>p_blob = \<lparr>bytes = [1, 2, 3, 1, 2, 3], btype = ''audio/webm''\<rparr>,
               p_mimeType = ''audio/webm''\<rparr>"
proof -
  have "audioChunksRef (run [CallStart, AcquireDone granted] init) = [] \<and>
   audioChunksRef (run [CallStart, AcquireDone granted, CallCancel] init) = [] \<and>
   \<not> onstop (sessions (run [CallStart, AcquireDone granted, CallCancel] init) ! 0) \<and>
   stop_queued (sessions (run [CallStart, AcquireDone granted, CallCancel] init) ! 0) \<and>
   audioChunksRef (run [CallStart, AcquireDone granted, CallCancel, StopTask 0 fragment] init) =
     [fragment]"
    by (simp add: recorder_eval)
  moreover have "status (run restart_after_cancel_trace init) = Recording \<and>
   mediaRecorderRef (run restart_after_cancel_trace init) = Some 1 \<and>
   duration (run restart_after_cancel_trace init) = 0 \<and>
   audioChunksRef (run restart_after_cancel_trace init) = [fragment] \<and>
   audioChunksRef (run restart_after_cancel_trace init) \<noteq> [] \<and>
   stopped (sessions (run [CallStop, StopTask 1 fragment] (run restart_after_cancel_trace init)) ! 1) =
     Resolved \<lparr>p_blob = \<lparr>bytes = [1, 2, 3, 1, 2, 3], btype = ''audio/webm''\<rparr>,
               p_mimeType = ''audio/webm''\<rparr>"
    unfolding restart_state by (simp add: recorder_eval)
  ultimately show ?thesis by blast
qed


end
